theory Spec2Isabelle
  imports Complex_Main "HOL-Library.AList" "HOL-Library.Multiset" "HOL-Library.Word"
begin

section \<open>Errors raised by the Python code\<close>

text \<open>
  Every exception the modelled code can raise is a value. \<open>InvalidPosition\<close> is the
  \<^verbatim>\<open>Exception('Emitter position ... is not in the lattice.')\<close> of \<^verbatim>\<open>coupling_at\<close>;
  the others are the exceptions of Python and numpy.
\<close>

datatype error =
  InvalidPosition | IndexError | KeyError | ValueError | TypeError | AssertionError
  | AttributeError

section \<open>Matrices\<close>

text \<open>
  A two-dimensional array (a numpy array or a scipy sparse matrix) is its shape and its
  entries, row by row. The entries are real numbers, the values of the numbers that the
  array holds. The operations of this section compute with them exactly: the rounding of
  the 64-bit floats is not modelled in the arithmetic of the transmons. (The matrix of a
  lattice is built from numbers of numpy, whose sums wrap around or round: see the next
  section.) Every operation builds its result with \<open>mk_mat\<close> from a function of the row
  and column index, so two results are equal as soon as they have the same shape and the
  same entries.
\<close>

datatype mat = Mat (nrows: nat) (ncols: nat) (rows: "real list list")

definition mk_mat :: "nat \<Rightarrow> nat \<Rightarrow> (nat \<Rightarrow> nat \<Rightarrow> real) \<Rightarrow> mat" where
  "mk_mat r c f = Mat r c (map (\<lambda>i. map (\<lambda>j. f i j) [0..<c]) [0..<r])"

text \<open>The entry at row \<open>i\<close> and column \<open>j\<close>; zero outside the shape.\<close>

definition entry :: "mat \<Rightarrow> nat \<Rightarrow> nat \<Rightarrow> real" where
  "entry A i j = (if i < nrows A \<and> j < ncols A then rows A ! i ! j else 0)"

text \<open>
  The arithmetic of scipy sparse matrices, entry by entry. Addition and subtraction are
  used on matrices of one shape only (scipy raises otherwise); the shape of the result
  is that of the first argument. \<open>matmul\<close> is the matrix product \<^verbatim>\<open>A @ B\<close> (for sparse
  matrices also \<^verbatim>\<open>A * B\<close>), used where the inner dimensions agree.
\<close>

definition mat_add :: "mat \<Rightarrow> mat \<Rightarrow> mat" where
  "mat_add A B = mk_mat (nrows A) (ncols A) (\<lambda>i j. entry A i j + entry B i j)"

definition mat_sub :: "mat \<Rightarrow> mat \<Rightarrow> mat" where
  "mat_sub A B = mk_mat (nrows A) (ncols A) (\<lambda>i j. entry A i j - entry B i j)"

definition mat_scale :: "real \<Rightarrow> mat \<Rightarrow> mat" where
  "mat_scale c A = mk_mat (nrows A) (ncols A) (\<lambda>i j. c * entry A i j)"

definition mat_div :: "mat \<Rightarrow> real \<Rightarrow> mat" where
  "mat_div A c = mk_mat (nrows A) (ncols A) (\<lambda>i j. entry A i j / c)"

definition matmul :: "mat \<Rightarrow> mat \<Rightarrow> mat" where
  "matmul A B = mk_mat (nrows A) (ncols B)
     (\<lambda>i j. \<Sum>k\<leftarrow>[0..<ncols A]. entry A i k * entry B k j)"

definition transpose_mat :: "mat \<Rightarrow> mat" where
  "transpose_mat A = mk_mat (ncols A) (nrows A) (\<lambda>i j. entry A j i)"

text \<open>\<^verbatim>\<open>scipy.sparse.eye(n)\<close>, the identity matrix.\<close>

definition eye :: "nat \<Rightarrow> mat" where
  "eye n = mk_mat n n (\<lambda>i j. if i = j then 1 else 0)"

text \<open>
  \<^verbatim>\<open>scipy.sparse.diags(diagonal, k, shape=shape)\<close> for one diagonal at the offset
  \<open>k \<ge> 0\<close>: entry \<open>(i, i + k)\<close> is \<open>diagonal[i]\<close>, and a diagonal given by one number is
  that number all along (scipy's broadcasting). It is called with a diagonal that has
  one entry or as many entries as the diagonal of the matrix.
\<close>

definition sp_diags :: "real list \<Rightarrow> nat \<Rightarrow> nat \<times> nat \<Rightarrow> mat" where
  "sp_diags diagonal k shape =
     mk_mat (fst shape) (snd shape)
       (\<lambda>i j. if j = i + k
               then (if length diagonal = 1 then diagonal ! 0 else diagonal ! i)
               else 0)"

text \<open>
  \<^verbatim>\<open>scipy.sparse.kron(A, B)\<close>, the Kronecker product: the block matrix whose block
  \<open>(a, b)\<close> is \<open>A[a, b] * B\<close>.
\<close>

definition kron :: "mat \<Rightarrow> mat \<Rightarrow> mat" where
  "kron A B = mk_mat (nrows A * nrows B) (ncols A * ncols B)
     (\<lambda>i j. entry A (i div nrows B) (j div ncols B) * entry B (i mod nrows B) (j mod ncols B))"

text \<open>
  The elementwise operations of numpy on two-dimensional arrays, with broadcasting: two
  extents are compatible when they are equal or one of them is 1, and an axis of
  extent 1 is repeated along the other array's extent. Incompatible shapes are a
  \<^verbatim>\<open>ValueError\<close>.
\<close>

definition bc_dim :: "nat \<Rightarrow> nat \<Rightarrow> nat option" where
  "bc_dim a b = (if a = b then Some a else if a = 1 then Some b
                 else if b = 1 then Some a else None)"

definition np_binop :: "(real \<Rightarrow> real \<Rightarrow> real) \<Rightarrow> mat \<Rightarrow> mat \<Rightarrow> error + mat" where
  "np_binop f A B =
     (case (bc_dim (nrows A) (nrows B), bc_dim (ncols A) (ncols B)) of
        (Some r, Some c) \<Rightarrow>
          Inr (mk_mat r c
            (\<lambda>i j. f (entry A (if nrows A = 1 then 0 else i) (if ncols A = 1 then 0 else j))
                     (entry B (if nrows B = 1 then 0 else i) (if ncols B = 1 then 0 else j))))
      | _ \<Rightarrow> Inl ValueError)"

text \<open>\<^verbatim>\<open>np.ones((m, n))\<close>.\<close>

definition np_ones :: "nat \<Rightarrow> nat \<Rightarrow> mat" where
  "np_ones m n = mk_mat m n (\<lambda>i j. 1)"

text \<open>
  Python's \<^verbatim>\<open>sum\<close> of a generator of matrices starts from the integer 0: it is that
  integer when the generator is empty, and \<open>0 + A\<close> is \<open>A\<close> for a sparse matrix and for
  an array. Adding the integer 0 to a sparse matrix changes nothing. \<open>arr_sub\<close> and
  \<open>arr_add\<close> are \<^verbatim>\<open>A - v\<close> and \<^verbatim>\<open>A + v\<close> for an array \<open>A\<close> and such a sum \<open>v\<close>:
  subtracting or adding the integer 0 gives an array with the entries of \<open>A\<close>.
\<close>

datatype pyval = PyInt0 | M mat

fun py_add :: "pyval \<Rightarrow> pyval \<Rightarrow> pyval" where
  "py_add PyInt0 v = v"
| "py_add (M A) PyInt0 = M A"
| "py_add (M A) (M B) = M (mat_add A B)"

fun arr_sub :: "mat \<Rightarrow> pyval \<Rightarrow> mat" where
  "arr_sub A PyInt0 = A"
| "arr_sub A (M B) = mat_sub A B"

fun arr_add :: "mat \<Rightarrow> pyval \<Rightarrow> mat" where
  "arr_add A PyInt0 = A"
| "arr_add A (M B) = mat_add A B"

definition py_sum :: "mat list \<Rightarrow> pyval" where
  "py_sum xs = foldl py_add PyInt0 (map M xs)"

text \<open>
  \<^verbatim>\<open>A @ x\<close> for the result of such a sum: numpy and scipy refuse a scalar operand and
  operands whose inner dimensions differ, each with a \<^verbatim>\<open>ValueError\<close>.
\<close>

definition py_matmul :: "pyval \<Rightarrow> mat \<Rightarrow> error + mat" where
  "py_matmul v x =
     (case v of
        PyInt0 \<Rightarrow> Inl ValueError
      | M A \<Rightarrow> if ncols A = nrows x then Inr (matmul A x) else Inl ValueError)"

text \<open>The entries of the result of a sum; those of the integer 0 are 0.\<close>

definition den :: "pyval \<Rightarrow> nat \<Rightarrow> nat \<Rightarrow> real" where
  "den v i j = (case v of PyInt0 \<Rightarrow> 0 | M A \<Rightarrow> entry A i j)"

text \<open>
  A matrix is in normal form when its rows are exactly the entries of its shape; every
  operation above returns a matrix in normal form.
\<close>

definition normal :: "mat \<Rightarrow> bool" where
  "normal A \<longleftrightarrow> A = mk_mat (nrows A) (ncols A) (entry A)"

section \<open>Numbers and arrays of numbers\<close>

text \<open>
  A weight that a hopping rule returns is a Python int or a Python float. numpy stores a
  Python int as a 64-bit integer (\<^verbatim>\<open>int64\<close>): the ints here are those of that range,
  each given by its two's complement word, whose value is \<open>sint\<close>; the sum of two words
  wraps around as the sum of two \<^verbatim>\<open>int64\<close> does. A Python float is a \<^verbatim>\<open>float64\<close>, given
  by the real number it stands for.
\<close>

datatype number = PyInt "64 word" | PyFloat real

fun number_value :: "number \<Rightarrow> real" where
  "number_value (PyInt w) = real_of_int (sint w)"
| "number_value (PyFloat x) = x"

fun is_int :: "number \<Rightarrow> bool" where
  "is_int (PyInt w) = True"
| "is_int (PyFloat x) = False"

text \<open>
  The arithmetic of \<^verbatim>\<open>float64\<close> rounds, and it is not code of this repository: it is a
  parameter. \<open>of_int64 w\<close> is the \<^verbatim>\<open>float64\<close> that numpy makes of an integer \<open>w\<close> that
  is too large to be a \<^verbatim>\<open>float64\<close> itself, and \<open>add_dups xs\<close> is the \<^verbatim>\<open>float64\<close> that
  scipy stores at a position of a sparse matrix for which the values \<open>xs\<close> are given,
  two or more: scipy adds them in \<^verbatim>\<open>float64\<close>, in the order in which its sorting routine
  leaves them; the result is taken as a function of the values, listed in the order of
  the input. Nothing else is assumed of the two functions.
\<close>

record float64 =
  of_int64 :: "64 word \<Rightarrow> real"
  add_dups :: "real list \<Rightarrow> real"

text \<open>
  The arithmetic without rounding: what numpy and scipy compute as long as every value
  and every sum is a \<^verbatim>\<open>float64\<close>, as for integers below \<open>2\<^sup>5\<^sup>3\<close>.
\<close>

definition exact :: float64 where
  "exact = \<lparr>of_int64 = (\<lambda>w. real_of_int (sint w)), add_dups = sum_list\<rparr>"

text \<open>
  An integer up to \<open>2\<^sup>5\<^sup>3\<close> in absolute value is a \<^verbatim>\<open>float64\<close> and is converted to
  itself. A position of a sparse matrix for which no value is given holds 0, one for
  which a single value is given holds this value, and the values of duplicates are added.
\<close>

fun as_float :: "float64 \<Rightarrow> number \<Rightarrow> real" where
  "as_float fl (PyInt w) =
     (if - (2 ^ 53) \<le> sint w \<and> sint w \<le> 2 ^ 53 then real_of_int (sint w) else of_int64 fl w)"
| "as_float fl (PyFloat x) = x"

definition float64_total :: "float64 \<Rightarrow> real list \<Rightarrow> real" where
  "float64_total fl xs = (case xs of [] \<Rightarrow> 0 | [x] \<Rightarrow> x | _ \<Rightarrow> add_dups fl xs)"

text \<open>
  \<^verbatim>\<open>np.array(hops)\<close> for a non-empty list of triples \<open>(J, i, k)\<close> of a weight and two
  positions is a two-dimensional array of one number type: \<^verbatim>\<open>int64\<close> when every
  weight is an int, and otherwise \<^verbatim>\<open>float64\<close>, each int converted. The positions are
  stored in the same array; they are numbers of sites, which both types hold exactly,
  and they are read back as they were written.
\<close>

datatype ndarray =
  Int64Array "(64 word \<times> nat \<times> nat) list" | Float64Array "(real \<times> nat \<times> nat) list"

fun int_rows :: "(number \<times> nat \<times> nat) list \<Rightarrow> (64 word \<times> nat \<times> nat) list option" where
  "int_rows [] = Some []"
| "int_rows ((PyInt w, r, c) # hs) = map_option ((#) (w, r, c)) (int_rows hs)"
| "int_rows ((PyFloat x, r, c) # hs) = None"

definition np_array :: "float64 \<Rightarrow> (number \<times> nat \<times> nat) list \<Rightarrow> ndarray" where
  "np_array fl hs =
     (case int_rows hs of
        Some ws \<Rightarrow> Int64Array ws
      | None \<Rightarrow> Float64Array [(as_float fl J, r, c). (J, r, c) \<leftarrow> hs])"

text \<open>
  \<^verbatim>\<open>scipy.sparse.csr_matrix((data, (row, col)), shape=(M, N))\<close> with the three columns
  of such an array: the matrix whose entry \<open>(i, k)\<close> is the sum of all \<open>data\<close> values
  given for that position (duplicates are summed), computed in the number type of the
  array; a position for which no value is given holds 0; a row or column index outside
  the shape is a \<^verbatim>\<open>ValueError\<close>. The triples are \<open>(data, row, col)\<close>, and the matrix is
  given by the values of its entries.
\<close>

definition csr_matrix :: "float64 \<Rightarrow> ndarray \<Rightarrow> nat \<times> nat \<Rightarrow> error + mat" where
  "csr_matrix fl hops shape =
     (case hops of
        Int64Array ts \<Rightarrow>
          if list_all (\<lambda>(v, r, c). r < fst shape \<and> c < snd shape) ts
          then Inr (mk_mat (fst shape) (snd shape)
                      (\<lambda>i k. real_of_int (sint (sum_list [v. (v, r, c) \<leftarrow> ts, r = i \<and> c = k]))))
          else Inl ValueError
      | Float64Array ts \<Rightarrow>
          if list_all (\<lambda>(v, r, c). r < fst shape \<and> c < snd shape) ts
          then Inr (mk_mat (fst shape) (snd shape)
                      (\<lambda>i k. float64_total fl
                    [v. (v, r, c) \<leftarrow> ts, r = i \<and> c = k]))
          else Inl ValueError)"

section \<open>Regular lattices (seeq/models/lattice.py)\<close>

subsection \<open>Site enumeration\<close>

type_synonym coordinate = "int \<times> int \<times> int"

text \<open>Python's \<^verbatim>\<open>range(a, b)\<close>: the integers from \<open>a\<close> up to \<open>b - 1\<close>, empty when \<open>b \<le> a\<close>.\<close>

definition py_range :: "int \<Rightarrow> int \<Rightarrow> int list" where
  "py_range a b = [a..b - 1]"

text \<open>
  \<^verbatim>\<open>coord = [(X,Y,Z) for X in range(X0,X0+sizes[0])
                    for Y in range(Y0,Y0+sizes[1])
                    for Z in range(Z0,Z0+sizes[2])
                    if condition(X, Y, Z)]\<close>
\<close>

fun site_coords ::
  "int \<times> int \<times> int \<Rightarrow> coordinate \<Rightarrow> (coordinate \<Rightarrow> bool) \<Rightarrow> coordinate list" where
  "site_coords (Lx, Ly, Lz) (X0, Y0, Z0) condition =
     [(X, Y, Z). X \<leftarrow> py_range X0 (X0 + Lx),
                 Y \<leftarrow> py_range Y0 (Y0 + Ly),
                 Z \<leftarrow> py_range Z0 (Z0 + Lz),
                 condition (X, Y, Z)]"

text \<open>
  \<^verbatim>\<open>ndx_map = {vector: ndx for ndx, vector in enumerate(coord)}\<close>: a dictionary filled
  in enumeration order. A Python dictionary keeps its keys in insertion order and a
  later value replaces an earlier one of the same key in place, which is what
  \<open>AList.update\<close> does on an association list; \<^verbatim>\<open>len\<close> is the number of keys.
\<close>

definition make_ndx_map :: "'c list \<Rightarrow> ('c \<times> nat) list" where
  "make_ndx_map cs =
     foldl (\<lambda>m (ndx, vector). AList.update vector ndx m) [] (enumerate 0 cs)"

text \<open>The lexicographic order on coordinates, the first component the most significant.\<close>

fun lex_less :: "coordinate \<Rightarrow> coordinate \<Rightarrow> bool" where
  "lex_less (x, y, z) (x', y', z') \<longleftrightarrow>
     x < x' \<or> (x = x' \<and> (y < y' \<or> (y = y' \<and> z < z')))"

text \<open>The coordinates of the box that the predicate admits.\<close>

fun admitted ::
  "int \<times> int \<times> int \<Rightarrow> coordinate \<Rightarrow> (coordinate \<Rightarrow> bool) \<Rightarrow> coordinate \<Rightarrow> bool" where
  "admitted (Lx, Ly, Lz) (X0, Y0, Z0) condition (X, Y, Z) \<longleftrightarrow>
     X0 \<le> X \<and> X < X0 + Lx \<and> Y0 \<le> Y \<and> Y < Y0 + Ly \<and> Z0 \<le> Z \<and> Z < Z0 + Lz \<and>
     condition (X, Y, Z)"

subsection \<open>The lattice and its construction\<close>

record lattice =
  H :: mat
  size_lat :: nat
  dimension :: nat
  coord :: "coordinate list"
  ndx_map :: "(coordinate \<times> nat) list"
  Xmin :: int
  Xmax :: int
  Ymin :: int
  Ymax :: int
  Zmin :: int
  Zmax :: int

text \<open>
  \<^verbatim>\<open>hops = np.array([(J, i, ndx_map[dest])
                     for i, orig in enumerate(coord)
                     for J, dest in hopping(*orig)
                     if dest in ndx_map])\<close>
  The lookup \<^verbatim>\<open>ndx_map[dest]\<close> is only made when \<^verbatim>\<open>dest in ndx_map\<close> holds.
\<close>

definition make_hops ::
  "'c list \<Rightarrow> ('c \<times> nat) list \<Rightarrow> ('c \<Rightarrow> ('w \<times> 'c) list) \<Rightarrow> ('w \<times> nat \<times> nat) list" where
  "make_hops cs m hopping =
     [(J, i, the (map_of m dest)).
        (i, orig) \<leftarrow> enumerate 0 cs, (J, dest) \<leftarrow> hopping orig, map_of m dest \<noteq> None]"

text \<open>Python's \<^verbatim>\<open>min\<close> and \<^verbatim>\<open>max\<close> of a non-empty sequence.\<close>

definition py_min :: "int list \<Rightarrow> int" where
  "py_min xs = fold min (tl xs) (hd xs)"

definition py_max :: "int list \<Rightarrow> int" where
  "py_max xs = fold max (tl xs) (hd xs)"

text \<open>
  \<^verbatim>\<open>Regular3DLattice.__init__(self, sizes, hopping, g=None, r0=(0,0,0), condition=None)\<close>.
  The argument \<^verbatim>\<open>g\<close> is not used; a missing \<^verbatim>\<open>condition\<close> is the predicate that is
  always true and a missing \<^verbatim>\<open>r0\<close> is \<open>(0, 0, 0)\<close>.

  \<^verbatim>\<open>np.array\<close> of an empty list is a one-dimensional array of shape \<open>(0,)\<close>, so the two
  index expressions \<^verbatim>\<open>hops[:,0]\<close> and \<^verbatim>\<open>coord[:,0]\<close> raise \<^verbatim>\<open>IndexError\<close> (too many
  indices) when the list is empty; on a non-empty list of triples the array has shape
  \<open>(n, 3)\<close> and the columns are read as written. The parameter \<open>fl\<close> is the arithmetic
  of \<^verbatim>\<open>float64\<close>, which \<^verbatim>\<open>np.array\<close> and \<^verbatim>\<open>csr_matrix\<close> use when a weight is a float.
\<close>

definition Regular3DLattice_init ::
  "float64 \<Rightarrow> int \<times> int \<times> int \<Rightarrow> (coordinate \<Rightarrow> (number \<times> coordinate) list) \<Rightarrow> coordinate
     \<Rightarrow> (coordinate \<Rightarrow> bool) \<Rightarrow> error + lattice" where
  "Regular3DLattice_init fl sizes hopping r0 condition =
     (let cs = site_coords sizes r0 condition;
          m = make_ndx_map cs;
          hops = make_hops cs m hopping;
          L = length m
      in if hops = [] then Inl IndexError
         else case csr_matrix fl (np_array fl hops) (L, L) of
           Inl e \<Rightarrow> Inl e
         | Inr Hm \<Rightarrow>
             (let dim = (if snd (snd sizes) > 1 then 3
                         else if fst (snd sizes) > 1 then 2 else 1)
              in if cs = [] then Inl IndexError
                 else Inr \<lparr>H = Hm, size_lat = nrows Hm, dimension = dim,
                           coord = cs, ndx_map = m,
                           Xmin = py_min (map fst cs),
                           Xmax = py_max (map fst cs),
                           Ymin = py_min (map (fst \<circ> snd) cs),
                           Ymax = py_max (map (fst \<circ> snd) cs),
                           Zmin = py_min (map (snd \<circ> snd) cs),
                           Zmax = py_max (map (snd \<circ> snd) cs)\<rparr>))"

text \<open>
  \<^verbatim>\<open>coupling_at(self, r, g=1.0)\<close>: \<^verbatim>\<open>ndx_map.get(r, None)\<close>, the exception when the
  position is not a key, else \<^verbatim>\<open>np.zeros(self.size)\<close> with \<^verbatim>\<open>gr[ndx] = g\<close> (an
  \<^verbatim>\<open>IndexError\<close> if the index were outside the vector).
\<close>

definition coupling_at :: "lattice \<Rightarrow> coordinate \<Rightarrow> real \<Rightarrow> error + real list" where
  "coupling_at self r strength =
     (case map_of (ndx_map self) r of
        None \<Rightarrow> Inl InvalidPosition
      | Some ndx \<Rightarrow>
          (let gr = replicate (size_lat self) 0
           in if ndx < length gr then Inr (gr[ndx := strength]) else Inl IndexError))"

text \<open>\<^verbatim>\<open>vertex_index(self, r)\<close> is \<^verbatim>\<open>self.ndx_map[r]\<close>, a \<^verbatim>\<open>KeyError\<close> on a missing key.\<close>

definition vertex_index :: "lattice \<Rightarrow> coordinate \<Rightarrow> error + nat" where
  "vertex_index self r =
     (case map_of (ndx_map self) r of None \<Rightarrow> Inl KeyError | Some ndx \<Rightarrow> Inr ndx)"

text \<open>
  The hopping rule of \<^verbatim>\<open>Lattice1D\<close>, with hopping \<open>J\<close> and local energy \<open>w\<close> (both
  are the int 1 when they are not given).
\<close>

definition hopping1d :: "number \<Rightarrow> number \<Rightarrow> coordinate \<Rightarrow> (number \<times> coordinate) list" where
  "hopping1d J w = (\<lambda>(X, Y, Z). [(w, (X, Y, Z)), (J, (X + 1, Y, Z)), (J, (X - 1, Y, Z))])"

text \<open>
  The predicate \<^verbatim>\<open>lambda X, Y, Z: True\<close> that the constructor takes when no condition is
  given, and a hopping rule that gives the local term of a site in two parts of the
  same weight.
\<close>

definition everywhere :: "coordinate \<Rightarrow> bool" where
  "everywhere c = True"

definition onsite_twice :: "number \<Rightarrow> coordinate \<Rightarrow> (number \<times> coordinate) list" where
  "onsite_twice J c = [(J, c), (J, c)]"

section \<open>Coupled transmons (seeq/models/cqed.py)\<close>

text \<open>
  A parameter \<^verbatim>\<open>Ec\<close>, \<^verbatim>\<open>EJ\<close> or \<^verbatim>\<open>ng\<close> is a number or a one-dimensional array;
  the coupling \<^verbatim>\<open>g\<close> is a number or a two-dimensional array (a one-dimensional array
  broadcasts against \<^verbatim>\<open>np.ones((n, n))\<close> as the matrix of one row with its entries).
\<close>

datatype param = Scalar real | Array "real list"

datatype coupling = GScalar real | GMatrix mat

text \<open>
  \<^verbatim>\<open>p * np.ones(n)\<close>: a number is repeated \<open>n\<close> times; an array of length \<open>n\<close> is kept;
  an array of length 1 is repeated; against \<^verbatim>\<open>np.ones(1)\<close> an array of any length is
  kept; other lengths do not broadcast.
\<close>

definition times_ones :: "param \<Rightarrow> nat \<Rightarrow> error + real list" where
  "times_ones p n =
     (case p of
        Scalar c \<Rightarrow> Inr (replicate n c)
      | Array v \<Rightarrow>
          if length v = n then Inr v
          else if length v = 1 then Inr (replicate n (v ! 0))
          else if n = 1 then Inr v
          else Inl ValueError)"

text \<open>\<^verbatim>\<open>g * np.ones((n, n))\<close>.\<close>

definition times_ones2 :: "coupling \<Rightarrow> nat \<Rightarrow> error + mat" where
  "times_ones2 c n =
     (case c of
        GScalar x \<Rightarrow> Inr (mk_mat n n (\<lambda>i j. x))
      | GMatrix A \<Rightarrow> np_binop (*) A (np_ones n n))"

text \<open>\<^verbatim>\<open>np.arange(-nmax, nmax + 1, 1)\<close>.\<close>

definition np_arange_sym :: "nat \<Rightarrow> real list" where
  "np_arange_sym n = map real_of_int [- int n..int n]"

text \<open>
  The local function \<^verbatim>\<open>qubit_operator(op, j, N)\<close> of \<^verbatim>\<open>__init__\<close>:
  \<^verbatim>\<open>d = op.shape[0]; il = sp.eye(d**j); ir = sp.eye(d**(N-j-1));
  return sp.kron(il, sp.kron(op, ir))\<close>.
  It is only called with \<open>j\<close> in \<^verbatim>\<open>range(N)\<close>, where the exponent \<open>N - j - 1\<close> is not
  negative.
\<close>

definition qubit_operator :: "mat \<Rightarrow> nat \<Rightarrow> nat \<Rightarrow> mat" where
  "qubit_operator op j n =
     (let d = nrows op;
          il = eye (d ^ j);
          ir = eye (d ^ (n - j - 1))
      in kron il (kron op ir))"

text \<open>
  The lifted operator in the words of the specification:
  \<open>I(localDimension^subsystemIndex) \<otimes> localOperator \<otimes>
  I(localDimension^(subsystemCount - subsystemIndex - 1))\<close>, where the product of three
  factors is written out entry by entry: a row index of the product space is the
  triple of a row index of each factor, the first factor the most significant.
\<close>

definition kron3 :: "mat \<Rightarrow> mat \<Rightarrow> mat \<Rightarrow> mat" where
  "kron3 A B C =
     mk_mat (nrows A * nrows B * nrows C) (ncols A * ncols B * ncols C)
       (\<lambda>i j. entry A (i div (nrows B * nrows C)) (j div (ncols B * ncols C))
              * entry B (i div nrows C mod nrows B) (j div ncols C mod ncols B)
              * entry C (i mod nrows C) (j mod ncols C))"

definition lifted_spec :: "mat \<Rightarrow> nat \<Rightarrow> nat \<Rightarrow> nat \<Rightarrow> mat" where
  "lifted_spec localOperator subsystemIndex subsystemCount localDimension =
     kron3 (eye (localDimension ^ subsystemIndex)) localOperator
           (eye (localDimension ^ (subsystemCount - subsystemIndex - 1)))"

record transmons =
  nqubits :: nat
  Ec :: "real list"
  ng :: "real list"
  EJ :: "real list"
  shape :: "nat \<times> nat"
  nmax :: nat
  N :: "mat list"
  Hcap :: pyval
  HJJ :: "mat list"
  g :: mat

text \<open>
  \<^verbatim>\<open>Transmons.__init__(self, nqubits, Ec=1/95., EJ=1., g=0, ng=0, nmax=8, format='csr')\<close>.
  The number of qubits and the cutoff are natural numbers; the storage format of the
  sparse matrices is not modelled. \<^verbatim>\<open>(N-ng*Id)**2\<close> is the matrix product of the sparse
  matrix with itself.
\<close>

definition Transmons_init ::
  "nat \<Rightarrow> param \<Rightarrow> param \<Rightarrow> coupling \<Rightarrow> param \<Rightarrow> nat \<Rightarrow> error + transmons" where
  "Transmons_init nq Ec0 EJ0 g0 ng0 nmax0 =
     (case times_ones Ec0 nq of Inl e \<Rightarrow> Inl e | Inr Ec1 \<Rightarrow>
      case times_ones ng0 nq of Inl e \<Rightarrow> Inl e | Inr ng1 \<Rightarrow>
      case times_ones EJ0 nq of Inl e \<Rightarrow> Inl e | Inr EJ1 \<Rightarrow>
      if \<not> (length Ec1 = length ng1 \<and> length ng1 = length EJ1 \<and> length EJ1 = nq)
      then Inl AssertionError
      else
        let dim = 2 * nmax0 + 1;
            fulldim = dim ^ nq;
            Nloc = sp_diags (np_arange_sym nmax0) 0 (dim, dim);
            Sup = sp_diags [1] 1 (dim, dim);
            Sdo = transpose_mat Sup;
            Ns = [qubit_operator Nloc j nq. j \<leftarrow> [0..<nq]];
            Id = eye fulldim;
            Hc = py_sum [mat_scale (4 * Eci) (let D = mat_sub Ni (mat_scale ngi Id) in matmul D D).
                           (ngi, Eci, Ni) \<leftarrow> zip ng1 (zip Ec1 Ns)];
            HJ = [qubit_operator (mat_div (mat_add Sup Sdo) 2) j nq.
                           (j, EJj) \<leftarrow> enumerate 0 EJ1]
        in case times_ones2 g0 nq of Inl e \<Rightarrow> Inl e | Inr g1 \<Rightarrow>
           case np_binop (+) g1 (transpose_mat g1) of Inl e \<Rightarrow> Inl e | Inr g2 \<Rightarrow>
             Inr \<lparr>nqubits = nq, Ec = Ec1, ng = ng1, EJ = EJ1, shape = (fulldim, fulldim),
                  nmax = nmax0, N = Ns, Hcap = Hc, HJJ = HJ, g = mat_div g2 2\<rparr>)"

text \<open>
  The pairs \<open>(i, j)\<close> of \<^verbatim>\<open>for i in range(self.nqubits) for j in range(i) if self.g[i,j]\<close>,
  and the check that every \<^verbatim>\<open>self.g[i,j]\<close> of the loop is inside the array (numpy
  raises \<^verbatim>\<open>IndexError\<close> otherwise).
\<close>

definition coupled_pairs :: "transmons \<Rightarrow> (nat \<times> nat) list" where
  "coupled_pairs self =
     [(i, j). i \<leftarrow> [0..<nqubits self], j \<leftarrow> [0..<i], entry (g self) i j \<noteq> 0]"

definition g_indices_ok :: "transmons \<Rightarrow> bool" where
  "g_indices_ok self \<longleftrightarrow>
     list_all (\<lambda>i. list_all (\<lambda>j. i < nrows (g self) \<and> j < ncols (g self)) [0..<i])
       [0..<nqubits self]"

text \<open>\<^verbatim>\<open>Transmons.hamiltonian(self)\<close>.\<close>

definition hamiltonian :: "transmons \<Rightarrow> error + pyval" where
  "hamiltonian self =
     (let s1 = py_sum [mat_scale (- EJi) hi. (EJi, hi) \<leftarrow> zip (EJ self) (HJJ self)]
      in if \<not> g_indices_ok self then Inl IndexError
         else Inr (py_add (py_add (Hcap self) s1)
                (py_sum [mat_scale (2 * entry (g self) i j) (matmul (N self ! i) (N self ! j)).
                           (i, j) \<leftarrow> coupled_pairs self])))"

text \<open>
  \<^verbatim>\<open>Transmons.apply(self, psi)\<close>. \<^verbatim>\<open>self.Hcap @ psi\<close> is evaluated first; the vector or
  matrix \<^verbatim>\<open>psi\<close> is a matrix here, a vector being a matrix of one column. The operators
  of \<^verbatim>\<open>self.HJJ\<close> and \<^verbatim>\<open>self.N\<close> have the shape of \<^verbatim>\<open>self.Hcap\<close>, so the products
  \<^verbatim>\<open>hi @ psi\<close> and \<^verbatim>\<open>N[j] @ psi\<close> are defined once \<^verbatim>\<open>self.Hcap @ psi\<close> is.
\<close>

definition Transmons_apply :: "transmons \<Rightarrow> mat \<Rightarrow> error + mat" where
  "Transmons_apply self psi =
     (case py_matmul (Hcap self) psi of
        Inl e \<Rightarrow> Inl e
      | Inr Hpsi \<Rightarrow>
          (let s1 = py_sum [mat_scale EJi (matmul hi psi). (EJi, hi) \<leftarrow> zip (EJ self) (HJJ self)]
           in if \<not> g_indices_ok self then Inl IndexError
              else Inr (arr_add (arr_sub Hpsi s1)
                     (py_sum [mat_scale (2 * entry (g self) i j)
                                (matmul (N self ! i) (matmul (N self ! j) psi)).
                                (i, j) \<leftarrow> coupled_pairs self]))))"

text \<open>\<open>hamiltonian() @ x\<close>: the Hamiltonian is built, then applied.\<close>

definition hamiltonian_matmul :: "transmons \<Rightarrow> mat \<Rightarrow> error + mat" where
  "hamiltonian_matmul self x =
     (case hamiltonian self of Inl e \<Rightarrow> Inl e | Inr Hm \<Rightarrow> py_matmul Hm x)"

text \<open>
  \<^verbatim>\<open>Transmons.tune(self, EJ=None, g=None)\<close> on values: \<^verbatim>\<open>copy.copy(self)\<close> is a new
  object with the fields of \<^verbatim>\<open>self\<close>, of which \<^verbatim>\<open>EJ\<close> and \<^verbatim>\<open>g\<close> are then replaced
  when the arguments are given.
\<close>

definition tune :: "transmons \<Rightarrow> param option \<Rightarrow> coupling option \<Rightarrow> error + transmons" where
  "tune self EJ0 g0 =
     (let out = self
      in case (case EJ0 of
                 None \<Rightarrow> Inr out
               | Some p \<Rightarrow>
                   (case times_ones p (nqubits self) of
                      Inl e \<Rightarrow> Inl e
                    | Inr v \<Rightarrow> Inr (out\<lparr>EJ := v\<rparr>))) of
           Inl e \<Rightarrow> Inl e
         | Inr out1 \<Rightarrow>
             (case g0 of
                None \<Rightarrow> Inr out1
              | Some c \<Rightarrow>
                  (case times_ones2 c (nqubits self) of
                     Inl e \<Rightarrow> Inl e
                   | Inr g1 \<Rightarrow>
                       (case np_binop (+) g1 (transpose_mat g1) of
                          Inl e \<Rightarrow> Inl e
                        | Inr g2 \<Rightarrow> Inr (out1\<lparr>g := mat_scale 0.5 g2\<rparr>)))))"

subsection \<open>Instances\<close>

text \<open>The instances: what the constructor returns, and what \<open>tune\<close> returns on an instance.\<close>

inductive Transmons_instance :: "transmons \<Rightarrow> bool" where
  constructed: "Transmons_init nq Ec0 EJ0 g0 ng0 nmax0 = Inr t \<Longrightarrow> Transmons_instance t"
| tuned: "Transmons_instance t \<Longrightarrow> tune t EJ0 g0 = Inr t' \<Longrightarrow> Transmons_instance t'"

text \<open>
  The invariant of the instances: the lifted operators are square matrices on the whole
  space, one per qubit; the capacitive part is the integer 0 exactly when there is no
  qubit; and the coupling matrix is symmetric, and has one row and one column per qubit
  unless there is exactly one qubit (where numpy's broadcasting against a 1 by 1 array
  keeps the shape of the argument).
\<close>

definition transmons_inv :: "transmons \<Rightarrow> bool" where
  "transmons_inv t \<longleftrightarrow>
     (let n = nqubits t; fd = (2 * nmax t + 1) ^ n
      in length (N t) = n \<and> length (HJJ t) = n \<and>
         list_all (\<lambda>A. nrows A = fd \<and> ncols A = fd) (N t) \<and>
         list_all (\<lambda>A. nrows A = fd \<and> ncols A = fd) (HJJ t) \<and>
         (case Hcap t of PyInt0 \<Rightarrow> n = 0 | M Hc \<Rightarrow> 0 < n \<and> nrows Hc = fd \<and> ncols Hc = fd) \<and>
         (n \<noteq> 1 \<longrightarrow> nrows (g t) = n \<and> ncols (g t) = n) \<and>
         transpose_mat (g t) = g t)"

subsection \<open>Objects and references\<close>

text \<open>
  \<open>tune\<close> makes a shallow copy: the new object holds references to the same arrays as
  the old one. To state what a call leaves unchanged, the objects live in a store: a
  list of objects, a reference being a position in it. A new object is put at the end;
  an attribute assignment replaces the object at a position by one with the attribute
  changed. A Transmons object holds its numbers and the references to its arrays, lists
  and matrices.
\<close>

type_synonym ref = nat

record transmons_obj =
  o_nqubits :: nat
  o_Ec :: ref
  o_ng :: ref
  o_EJ :: ref
  o_shape :: "nat \<times> nat"
  o_nmax :: nat
  o_N :: ref
  o_Hcap :: ref
  o_HJJ :: ref
  o_g :: ref

datatype pyobj =
  Floats "real list" | Matrix mat | Summed pyval | Matrices "mat list" | Instance transmons_obj

type_synonym store = "pyobj list"

definition new_obj :: "store \<Rightarrow> pyobj \<Rightarrow> ref \<times> store" where
  "new_obj h v = (length h, h @ [v])"

definition set_attr :: "store \<Rightarrow> ref \<Rightarrow> (transmons_obj \<Rightarrow> transmons_obj) \<Rightarrow> store" where
  "set_attr h r upd = (case h ! r of Instance f \<Rightarrow> h[r := Instance (upd f)] | _ \<Rightarrow> h)"

text \<open>
  \<^verbatim>\<open>Transmons.tune(self, EJ=None, g=None)\<close> on the store: \<^verbatim>\<open>out = copy.copy(self)\<close> is a
  new object with the attributes of \<^verbatim>\<open>self\<close>; \<^verbatim>\<open>EJ * np.ones(self.nqubits)\<close> and
  \<^verbatim>\<open>0.5 * (g + g.T)\<close> are new arrays, and \<^verbatim>\<open>out.EJ = ...\<close>, \<^verbatim>\<open>out.g = ...\<close> assign
  attributes of \<^verbatim>\<open>out\<close>.
\<close>

definition tune_store ::
  "store \<Rightarrow> ref \<Rightarrow> param option \<Rightarrow> coupling option \<Rightarrow> error + ref \<times> store" where
  "tune_store h self EJ0 g0 =
     (case h ! self of
        Instance f \<Rightarrow>
          (let (out, h1) = new_obj h (Instance f)
           in case (case EJ0 of
                      None \<Rightarrow> Inr h1
                    | Some p \<Rightarrow>
                        (case times_ones p (o_nqubits f) of
                           Inl e \<Rightarrow> Inl e
                         | Inr v \<Rightarrow>
                             (let (a, h2) = new_obj h1 (Floats v)
                              in Inr (set_attr h2 out (\<lambda>ob. ob\<lparr>o_EJ := a\<rparr>))))) of
                Inl e \<Rightarrow> Inl e
              | Inr h3 \<Rightarrow>
                  (case g0 of
                     None \<Rightarrow> Inr (out, h3)
                   | Some c \<Rightarrow>
                       (case times_ones2 c (o_nqubits f) of
                          Inl e \<Rightarrow> Inl e
                        | Inr g1 \<Rightarrow>
                            (case np_binop (+) g1 (transpose_mat g1) of
                               Inl e \<Rightarrow> Inl e
                             | Inr g2 \<Rightarrow>
                                 (let (a, h4) = new_obj h3 (Matrix (mat_scale 0.5 g2))
                                  in Inr (out, set_attr h4 out (\<lambda>ob. ob\<lparr>o_g := a\<rparr>)))))))
      | _ \<Rightarrow> Inl AttributeError)"

text \<open>The value of an object: each attribute read through its reference.\<close>

definition floats_at :: "store \<Rightarrow> ref \<Rightarrow> real list" where
  "floats_at h a = (case h ! a of Floats v \<Rightarrow> v | _ \<Rightarrow> [])"

definition matrix_at :: "store \<Rightarrow> ref \<Rightarrow> mat" where
  "matrix_at h a = (case h ! a of Matrix A \<Rightarrow> A | _ \<Rightarrow> Mat 0 0 [])"

definition summed_at :: "store \<Rightarrow> ref \<Rightarrow> pyval" where
  "summed_at h a = (case h ! a of Summed v \<Rightarrow> v | _ \<Rightarrow> PyInt0)"

definition matrices_at :: "store \<Rightarrow> ref \<Rightarrow> mat list" where
  "matrices_at h a = (case h ! a of Matrices As \<Rightarrow> As | _ \<Rightarrow> [])"

definition view :: "store \<Rightarrow> ref \<Rightarrow> transmons option" where
  "view h r =
     (case h ! r of
        Instance f \<Rightarrow>
          Some \<lparr>nqubits = o_nqubits f, Ec = floats_at h (o_Ec f), ng = floats_at h (o_ng f),
                EJ = floats_at h (o_EJ f), shape = o_shape f, nmax = o_nmax f,
                N = matrices_at h (o_N f), Hcap = summed_at h (o_Hcap f),
                HJJ = matrices_at h (o_HJJ f), g = matrix_at h (o_g f)\<rparr>
      | _ \<Rightarrow> None)"

text \<open>
  A Transmons object of the store: the position holds an instance, and this instance
  refers to objects of the store only.
\<close>

definition is_object :: "store \<Rightarrow> ref \<Rightarrow> bool" where
  "is_object h r \<longleftrightarrow>
     r < length h \<and>
     (case h ! r of
        Instance f \<Rightarrow>
          list_all (\<lambda>a. a < length h)
            [o_Ec f, o_ng f, o_EJ f, o_N f, o_Hcap f, o_HJJ f, o_g f]
      | _ \<Rightarrow> False)"

text \<open>Putting an instance into the store: its arrays first, then the object.\<close>

definition new_instance :: "store \<Rightarrow> transmons \<Rightarrow> ref \<times> store" where
  "new_instance h t =
     (let k = length h
      in (k + 7,
          h @ [Floats (Ec t), Floats (ng t), Floats (EJ t), Matrices (N t), Summed (Hcap t),
               Matrices (HJJ t), Matrix (g t),
               Instance \<lparr>o_nqubits = nqubits t, o_Ec = k, o_ng = k + 1, o_EJ = k + 2,
                         o_shape = shape t, o_nmax = nmax t, o_N = k + 3, o_Hcap = k + 4,
                         o_HJJ = k + 5, o_g = k + 6\<rparr>]))"

text \<open>
  Later uses of an object. A client can call \<^verbatim>\<open>tune\<close> on it (the other methods only
  read the object they are called on), assign one of its array attributes
  (\<^verbatim>\<open>ob.EJ = v\<close>, \<^verbatim>\<open>ob.g = A\<close>: the attribute then refers to that array, a new object
  here), or write into one of its arrays in place (\<^verbatim>\<open>ob.EJ[i] = v\<close>,
  \<^verbatim>\<open>ob.g[i, j] = v\<close>): the item assignment of numpy changes the array that the
  attribute refers to, and raises \<^verbatim>\<open>IndexError\<close> outside the array.
\<close>

datatype vec_attr = Attr_Ec | Attr_ng | Attr_EJ

fun vec_ref :: "vec_attr \<Rightarrow> transmons_obj \<Rightarrow> ref" where
  "vec_ref Attr_Ec f = o_Ec f"
| "vec_ref Attr_ng f = o_ng f"
| "vec_ref Attr_EJ f = o_EJ f"

fun set_vec_ref :: "vec_attr \<Rightarrow> ref \<Rightarrow> transmons_obj \<Rightarrow> transmons_obj" where
  "set_vec_ref Attr_Ec a f = f\<lparr>o_Ec := a\<rparr>"
| "set_vec_ref Attr_ng a f = f\<lparr>o_ng := a\<rparr>"
| "set_vec_ref Attr_EJ a f = f\<lparr>o_EJ := a\<rparr>"

fun vec_of :: "vec_attr \<Rightarrow> transmons \<Rightarrow> real list" where
  "vec_of Attr_Ec t = Ec t"
| "vec_of Attr_ng t = ng t"
| "vec_of Attr_EJ t = EJ t"

datatype use =
  Tune "param option" "coupling option"
  | Assign_vec vec_attr "real list"
  | Assign_g mat
  | Write_vec vec_attr nat real
  | Write_g nat nat real

fun in_place :: "use \<Rightarrow> bool" where
  "in_place (Write_vec va i v) = True"
| "in_place (Write_g i j v) = True"
| "in_place u = False"

text \<open>\<^verbatim>\<open>A[i, j] = v\<close> inside the array.\<close>

definition setitem :: "mat \<Rightarrow> nat \<Rightarrow> nat \<Rightarrow> real \<Rightarrow> mat" where
  "setitem A i j v = mk_mat (nrows A) (ncols A) (\<lambda>a b. if a = i \<and> b = j then v else entry A a b)"

definition use_store :: "store \<Rightarrow> ref \<Rightarrow> use \<Rightarrow> error + store" where
  "use_store h r u =
     (case h ! r of
        Instance f \<Rightarrow>
          (case u of
             Tune EJ0 g0 \<Rightarrow>
               (case tune_store h r EJ0 g0 of Inl e \<Rightarrow> Inl e | Inr (out, h') \<Rightarrow> Inr h')
           | Assign_vec va v \<Rightarrow>
               (let (a, h1) = new_obj h (Floats v) in Inr (set_attr h1 r (set_vec_ref va a)))
           | Assign_g A \<Rightarrow>
               (let (a, h1) = new_obj h (Matrix A) in Inr (set_attr h1 r (\<lambda>ob. ob\<lparr>o_g := a\<rparr>)))
           | Write_vec va i v \<Rightarrow>
               (case h ! vec_ref va f of
                  Floats xs \<Rightarrow>
                    if i < length xs then Inr (h[vec_ref va f := Floats (xs[i := v])])
                    else Inl IndexError
                | _ \<Rightarrow> Inl TypeError)
           | Write_g i j v \<Rightarrow>
               (case h ! o_g f of
                  Matrix A \<Rightarrow>
                    if i < nrows A \<and> j < ncols A then Inr (h[o_g f := Matrix (setitem A i j v)])
                    else Inl IndexError
                | _ \<Rightarrow> Inl TypeError))
      | _ \<Rightarrow> Inl AttributeError)"

text \<open>A sequence of uses of one object, and the array that a use writes in place.\<close>

fun uses_store :: "store \<Rightarrow> ref \<Rightarrow> use list \<Rightarrow> error + store" where
  "uses_store h r [] = Inr h"
| "uses_store h r (u # us) =
     (case use_store h r u of Inl e \<Rightarrow> Inl e | Inr h' \<Rightarrow> uses_store h' r us)"

definition write_target :: "store \<Rightarrow> ref \<Rightarrow> use \<Rightarrow> ref option" where
  "write_target h r u =
     (case h ! r of
        Instance f \<Rightarrow>
          (case u of
             Write_vec va i v \<Rightarrow> Some (vec_ref va f)
           | Write_g i j v \<Rightarrow> Some (o_g f)
           | _ \<Rightarrow> None)
      | _ \<Rightarrow> None)"

text \<open>
  \<open>writes_from n h r us\<close>: in the sequence \<open>us\<close> of uses of the object \<open>r\<close>, started in
  the store \<open>h\<close>, every write in place goes to an array at a position from \<open>n\<close> on,
  that is, to an array made after the store had \<open>n\<close> objects.
\<close>

fun writes_from :: "nat \<Rightarrow> store \<Rightarrow> ref \<Rightarrow> use list \<Rightarrow> bool" where
  "writes_from n h r [] = True"
| "writes_from n h r (u # us) =
     ((case write_target h r u of Some a \<Rightarrow> n \<le> a | None \<Rightarrow> True) \<and>
      (case use_store h r u of Inl e \<Rightarrow> True | Inr h' \<Rightarrow> writes_from n h' r us))"

text \<open>
  The object that \<^verbatim>\<open>Transmons(2, Ec=1, EJ=1, g=2, ng=0, nmax=0)\<close> makes, in a store that
  holds nothing else.
\<close>

definition two_qubits :: "ref \<times> store" where
  "two_qubits =
     new_instance [] (projr (Transmons_init 2 (Scalar 1) (Scalar 1) (GScalar 2) (Scalar 0) 0))"

section \<open>Hamiltonian diagonalization (seeq/tools.py)\<close>

text \<open>
  \<^verbatim>\<open>np.sort\<close> of a one-dimensional array of floats: the values in ascending order.
\<close>

definition np_sort :: "real list \<Rightarrow> real list" where
  "np_sort xs = sort xs"

text \<open>
  \<^verbatim>\<open>np.argsort\<close>: the indices that put the array in ascending order. numpy does not
  fix the order of the indices of equal values (its default sort is not stable); here
  they come in increasing order. The properties below use only that the result is a
  permutation of the indices that sorts the values.
\<close>

definition np_argsort :: "real list \<Rightarrow> nat list" where
  "np_argsort xs = map snd (sort_key fst (zip xs [0..<length xs]))"

text \<open>
  Indexing with an array of indices: \<^verbatim>\<open>lam[ndx]\<close> on a vector and \<^verbatim>\<open>psi[:,ndx]\<close> on the
  columns of a matrix; an index outside the array is an \<^verbatim>\<open>IndexError\<close>.
\<close>

definition take_idx :: "real list \<Rightarrow> nat list \<Rightarrow> error + real list" where
  "take_idx xs ndx =
     (if list_all (\<lambda>i. i < length xs) ndx then Inr (map (\<lambda>i. xs ! i) ndx) else Inl IndexError)"

definition take_cols :: "mat \<Rightarrow> nat list \<Rightarrow> error + mat" where
  "take_cols A ndx =
     (if list_all (\<lambda>j. j < ncols A) ndx
      then Inr (mk_mat (nrows A) (length ndx) (\<lambda>i j. entry A i (ndx ! j)))
      else Inl IndexError)"

text \<open>
  \<^verbatim>\<open>lowest_eigenstates(H, neig)\<close> and \<^verbatim>\<open>lowest_eigenvalues(H, neig)\<close>. The iterative
  solver \<^verbatim>\<open>scipy.sparse.linalg.eigsh(H, neig, which='SA', ...)\<close> is not code of this
  repository: it is the parameter \<open>eigsh\<close>, which returns the eigenvalues (and, in the
  first function, the matrix whose columns are the eigenvectors) in an order of its own,
  or raises. An exception of the solver is passed on unchanged.
\<close>

definition lowest_eigenstates ::
  "('op \<Rightarrow> nat \<Rightarrow> error + real list \<times> mat) \<Rightarrow> 'op \<Rightarrow> nat \<Rightarrow> error + real list \<times> mat" where
  "lowest_eigenstates eigsh Hop neig =
     (case eigsh Hop neig of
        Inl e \<Rightarrow> Inl e
      | Inr (lam, psi) \<Rightarrow>
          (let ndx = np_argsort lam
           in case take_idx lam ndx of
                Inl e \<Rightarrow> Inl e
              | Inr lam' \<Rightarrow>
                  (case take_cols psi ndx of
                     Inl e \<Rightarrow> Inl e
                   | Inr psi' \<Rightarrow> Inr (lam', psi'))))"

definition lowest_eigenvalues ::
  "('op \<Rightarrow> nat \<Rightarrow> error + real list) \<Rightarrow> 'op \<Rightarrow> nat \<Rightarrow> error + real list" where
  "lowest_eigenvalues eigsh Hop neig =
     (case eigsh Hop neig of Inl e \<Rightarrow> Inl e | Inr lam \<Rightarrow> Inr (np_sort lam))"



section \<open>Properties of matrices\<close>

lemma nrows_mk_mat [simp]: "nrows (mk_mat r c f) = r"
  and ncols_mk_mat [simp]: "ncols (mk_mat r c f) = c"
  by (simp_all add: mk_mat_def)

lemma entry_mk_mat [simp]: "entry (mk_mat r c f) i j = (if i < r \<and> j < c then f i j else 0)"
  by (simp add: entry_def mk_mat_def)

lemma mk_mat_cong:
  "(\<And>i j. i < r \<Longrightarrow> j < c \<Longrightarrow> f i j = f' i j) \<Longrightarrow> mk_mat r c f = mk_mat r c f'"
  by (simp add: mk_mat_def)


lemma sum_list_upt: "(\<Sum>k\<leftarrow>[0..<n]. f k) = (\<Sum>k<n. f k)" for f :: "nat \<Rightarrow> real"
  by (simp add: interv_sum_list_conv_sum_set_nat lessThan_atLeast0)

lemma entry_out: "\<not> (i < nrows A \<and> j < ncols A) \<Longrightarrow> entry A i j = 0"
  by (auto simp: entry_def)

lemma normal_mk_mat [simp]: "normal (mk_mat r c f)"
  unfolding normal_def nrows_mk_mat ncols_mk_mat by (rule mk_mat_cong) simp

lemma mat_eqI:
  assumes "normal A" "normal B" "nrows A = nrows B" "ncols A = ncols B"
    and "\<And>i j. i < nrows A \<Longrightarrow> j < ncols A \<Longrightarrow> entry A i j = entry B i j"
  shows "A = B"
proof -
  have "A = mk_mat (nrows A) (ncols A) (entry A)" using assms(1) by (simp add: normal_def)
  also have "\<dots> = mk_mat (nrows B) (ncols B) (entry B)"
    unfolding assms(3)[symmetric] assms(4)[symmetric] by (rule mk_mat_cong) (rule assms(5))
  also have "\<dots> = B" using assms(2) by (simp add: normal_def)
  finally show ?thesis .
qed

lemma shape_ops [simp]:
  "nrows (mat_add A B) = nrows A" "ncols (mat_add A B) = ncols A"
  "nrows (mat_sub A B) = nrows A" "ncols (mat_sub A B) = ncols A"
  "nrows (mat_scale c A) = nrows A" "ncols (mat_scale c A) = ncols A"
  "nrows (mat_div A c) = nrows A" "ncols (mat_div A c) = ncols A"
  "nrows (matmul A B) = nrows A" "ncols (matmul A B) = ncols B"
  "nrows (transpose_mat A) = ncols A" "ncols (transpose_mat A) = nrows A"
  "nrows (eye n) = n" "ncols (eye n) = n"
  "nrows (kron A B) = nrows A * nrows B" "ncols (kron A B) = ncols A * ncols B"
  "nrows (sp_diags d k s) = fst s" "ncols (sp_diags d k s) = snd s"
  "nrows (np_ones m n) = m" "ncols (np_ones m n) = n"
  by (simp_all add: mat_add_def mat_sub_def mat_scale_def mat_div_def matmul_def
      transpose_mat_def eye_def kron_def sp_diags_def np_ones_def)

lemma normal_ops [simp]:
  "normal (mat_add A B)" "normal (mat_sub A B)" "normal (mat_scale c A)" "normal (mat_div A c)"
  "normal (matmul A B)" "normal (transpose_mat A)" "normal (eye n)" "normal (kron A B)"
  by (simp_all add: mat_add_def mat_sub_def mat_scale_def mat_div_def matmul_def
      transpose_mat_def eye_def kron_def)

lemma entry_mat_scale [simp]: "entry (mat_scale c A) i j = c * entry A i j"
  by (simp add: mat_scale_def entry_out)

lemma entry_mat_div [simp]: "entry (mat_div A c) i j = entry A i j / c"
  by (simp add: mat_div_def entry_out)

lemma entry_mat_add:
  "nrows B = nrows A \<Longrightarrow> ncols B = ncols A \<Longrightarrow>
   entry (mat_add A B) i j = entry A i j + entry B i j"
  by (simp add: mat_add_def entry_out)

lemma entry_mat_sub:
  "nrows B = nrows A \<Longrightarrow> ncols B = ncols A \<Longrightarrow>
   entry (mat_sub A B) i j = entry A i j - entry B i j"
  by (simp add: mat_sub_def entry_out)

lemma entry_matmul: "entry (matmul A B) i j = (\<Sum>k<ncols A. entry A i k * entry B k j)"
proof (cases "i < nrows A \<and> j < ncols B")
  case True
  then show ?thesis by (simp add: matmul_def sum_list_upt)
next
  case False
  then have z: "entry A i k * entry B k j = 0" for k
    by (auto simp: entry_out)
  have "(\<Sum>k<ncols A. entry A i k * entry B k j) = 0"
    by (rule sum.neutral) (simp add: z del: mult_eq_0_iff)
  moreover have "entry (matmul A B) i j = 0"
    using False by (intro entry_out) simp
  ultimately show ?thesis by simp
qed

lemma entry_transpose [simp]: "entry (transpose_mat A) i j = entry A j i"
  by (auto simp add: transpose_mat_def entry_out)

lemma entry_eye: "entry (eye n) i j = (if i = j \<and> i < n then 1 else 0)"
  by (simp add: eye_def)

lemma entry_kron:
  "entry (kron A B) i j
     = entry A (i div nrows B) (j div ncols B) * entry B (i mod nrows B) (j mod ncols B)"
proof (cases "i < nrows A * nrows B \<and> j < ncols A * ncols B")
  case True
  then show ?thesis by (simp add: kron_def)
next
  case False
  have l: "entry (kron A B) i j = 0"
    using False by (intro entry_out) simp
  have "entry A (i div nrows B) (j div ncols B) = 0 \<or> entry B (i mod nrows B) (j mod ncols B) = 0"
  proof (cases "i < nrows A * nrows B")
    case False
    show ?thesis
    proof (cases "nrows B = 0")
      case True
      then show ?thesis by (simp add: entry_out)
    next
      case nz: False
      with False have "\<not> i div nrows B < nrows A"
        by (simp add: less_mult_imp_div_less div_less_iff_less_mult mult.commute)
      then show ?thesis by (simp add: entry_out)
    qed
  next
    case True
    with \<open>\<not> (i < nrows A * nrows B \<and> j < ncols A * ncols B)\<close>
    have F: "\<not> j < ncols A * ncols B" by simp
    show ?thesis
    proof (cases "ncols B = 0")
      case True
      then show ?thesis by (simp add: entry_out)
    next
      case nz: False
      with F have "\<not> j div ncols B < ncols A"
        by (simp add: div_less_iff_less_mult mult.commute)
      then show ?thesis by (simp add: entry_out)
    qed
  qed
  with l show ?thesis by auto
qed

lemma mod_mult_div: "i mod (b * c) div c = i div c mod b" for i :: nat
proof (cases "c = 0")
  case True
  then show ?thesis by simp
next
  case False
  have "i mod (b * c) = c * (i div c mod b) + i mod c"
    by (simp add: mult.commute[of b c] mod_mult2_eq)
  then have "i mod (b * c) div c = (c * (i div c mod b) + i mod c) div c"
    by simp
  also have "\<dots> = i div c mod b"
    using False by simp
  finally show ?thesis .
qed

lemma mod_mult_mod: "i mod (b * c) mod c = i mod c" for i :: nat
  by (rule mod_mod_cancel) simp

lemma kron_assoc_right: "kron A (kron B C) = kron3 A B C"
  unfolding kron_def[of A] kron3_def shape_ops mult.assoc
  by (rule mk_mat_cong) (simp add: entry_kron mod_mult_div mod_mult_mod)

lemma div_mult_div: "i div (b * c) = i div c div b" for i :: nat
  by (simp add: mult.commute[of b c] div_mult2_eq)

lemma kron_assoc_left: "kron (kron A B) C = kron3 A B C"
  unfolding kron_def[of _ C] kron3_def shape_ops
  by (rule mk_mat_cong) (simp add: entry_kron div_mult_div)


section \<open>Properties of the site enumeration\<close>

lemma set_py_range: "set (py_range a b) = {x. a \<le> x \<and> x < b}"
  by (auto simp: py_range_def)

lemma set_site_coords:
  "c \<in> set (site_coords sizes r0 condition) \<longleftrightarrow> admitted sizes r0 condition c"
  by (cases sizes; cases r0; cases c) (auto simp: set_py_range)

lemma sorted_wrt_concat_map:
  assumes "sorted_wrt Q xs"
    and "\<And>x. x \<in> set xs \<Longrightarrow> sorted_wrt R (f x)"
    and "\<And>x y a b. Q x y \<Longrightarrow> a \<in> set (f x) \<Longrightarrow> b \<in> set (f y) \<Longrightarrow> R a b"
  shows "sorted_wrt R (concat (map f xs))"
  using assms by (induction xs) (auto simp: sorted_wrt_append)

lemma sorted_py_range: "sorted_wrt (<) (py_range a b)"
  unfolding py_range_def by (rule sorted_wrt_upto)

lemma sorted_site_coords: "sorted_wrt lex_less (site_coords sizes r0 condition)"
proof (cases sizes; cases r0)
  fix Lx Ly Lz X0 Y0 Z0
  assume s: "sizes = (Lx, Ly, Lz)" and r: "r0 = (X0, Y0, Z0)"
  show ?thesis
    unfolding s r site_coords.simps
    apply (rule sorted_wrt_concat_map[OF sorted_py_range])
     apply (rule sorted_wrt_concat_map[OF sorted_py_range])
      apply (rule sorted_wrt_concat_map[OF sorted_py_range])
       apply auto
    done
qed

lemma lex_less_irrefl: "\<not> lex_less c c"
  by (cases c) auto

lemma distinct_site_coords: "distinct (site_coords sizes r0 condition)"
proof -
  have "sorted_wrt (\<lambda>a b. a \<noteq> b) (site_coords sizes r0 condition)"
    by (rule sorted_wrt_mono_rel[OF _ sorted_site_coords]) (auto simp: lex_less_irrefl)
  then show ?thesis by (simp add: distinct_conv_nth sorted_wrt_iff_nth_less) (metis nat_neq_iff)
qed

lemma update_fresh: "k \<notin> fst ` set al \<Longrightarrow> AList.update k v al = al @ [(k, v)]"
  by (induction al) auto

lemma foldl_update_fresh:
  "distinct (map snd ps) \<Longrightarrow> snd ` set ps \<inter> fst ` set acc = {} \<Longrightarrow>
   foldl (\<lambda>m (ndx, vector). AList.update vector ndx m) acc ps
     = acc @ map (\<lambda>(ndx, vector). (vector, ndx)) ps"
proof (induction ps arbitrary: acc)
  case Nil
  then show ?case by simp
next
  case (Cons p ps)
  obtain i c where p: "p = (i, c)" by (cases p)
  from Cons.prems have fresh: "c \<notin> fst ` set acc" by (auto simp: p)
  have "snd ` set ps \<inter> fst ` set (acc @ [(c, i)]) = {}"
    using Cons.prems by (auto simp: p)
  with Cons.IH[of "acc @ [(c, i)]"] Cons.prems show ?case
    by (simp add: p update_fresh[OF fresh])
qed

lemma make_ndx_map_distinct:
  "distinct cs \<Longrightarrow> make_ndx_map cs = zip cs [0..<length cs]"
proof -
  assume "distinct cs"
  then have "make_ndx_map cs = map (\<lambda>(ndx, vector). (vector, ndx)) (enumerate 0 cs)"
    unfolding make_ndx_map_def by (subst foldl_update_fresh) simp_all
  also have "\<dots> = zip cs [0..<length cs]"
    by (simp add: enumerate_eq_zip zip_commute[of cs] map_prod_def[symmetric] del: upt_Suc)
  finally show ?thesis .
qed

lemma map_of_ndx_map:
  assumes "distinct cs"
  shows "map_of (make_ndx_map cs) c = Some i \<longleftrightarrow> i < length cs \<and> cs ! i = c"
proof -
  have "map_of (zip cs [0..<length cs]) c = Some i \<longleftrightarrow> (c, i) \<in> set (zip cs [0..<length cs])"
    by (rule map_of_eq_Some_iff) (simp add: assms)
  also have "\<dots> \<longleftrightarrow> i < length cs \<and> cs ! i = c"
    by (auto simp: in_set_zip)
  finally show ?thesis by (simp add: make_ndx_map_distinct[OF assms])
qed

lemma length_make_ndx_map: "distinct cs \<Longrightarrow> length (make_ndx_map cs) = length cs"
  by (simp add: make_ndx_map_distinct)

lemma lex_less_trans: "lex_less a b \<Longrightarrow> lex_less b c \<Longrightarrow> lex_less a c"
  by (cases a; cases b; cases c) auto

lemma rank_in_sorted:
  assumes "sorted_wrt lex_less cs" "i < length cs"
  shows "card {c \<in> set cs. lex_less c (cs ! i)} = i"
proof -
  have d: "distinct cs"
    using assms(1) lex_less_irrefl
    by (metis (mono_tags, lifting) distinct_conv_nth nat_neq_iff sorted_wrt_iff_nth_less)
  have "{c \<in> set cs. lex_less c (cs ! i)} = set (take i cs)"
  proof (intro set_eqI iffI)
    fix c assume "c \<in> {c \<in> set cs. lex_less c (cs ! i)}"
    then obtain j where j: "j < length cs" "cs ! j = c" and l: "lex_less c (cs ! i)"
      by (auto simp: in_set_conv_nth)
    have "j < i"
    proof (rule ccontr)
      assume "\<not> j < i"
      then consider "j = i" | "i < j" by linarith
      then show False
      proof cases
        case 1
        with j l show False by (simp add: lex_less_irrefl)
      next
        case 2
        then have "lex_less (cs ! i) (cs ! j)"
          using assms(1) j(1) by (simp add: sorted_wrt_iff_nth_less)
        with l j(2) show False using lex_less_trans lex_less_irrefl by blast
      qed
    qed
    with j assms(2) show "c \<in> set (take i cs)"
      by (auto simp: in_set_conv_nth)
  next
    fix c assume "c \<in> set (take i cs)"
    then obtain j where "j < i" "cs ! j = c"
      using assms(2) by (auto simp: in_set_conv_nth)
    with assms show "c \<in> {c \<in> set cs. lex_less c (cs ! i)}"
      by (auto simp: sorted_wrt_iff_nth_less)
  qed
  moreover have "card (set (take i cs)) = i"
    using d assms(2) by (simp add: distinct_card)
  ultimately show ?thesis by simp
qed


text \<open>
  Claim C4. For every sizes triple, origin and admission predicate, the enumeration
  \<open>cs\<close> holds exactly the admitted coordinates of the box, in strictly increasing
  lexicographic order (the first component the most significant, so \<open>X\<close> varies
  slowest), each of them once; the dictionary has one key per coordinate and maps a
  coordinate to \<open>i\<close> exactly when it stands at position \<open>i\<close> of \<open>cs\<close>, which makes it
  a bijection between the admitted coordinates and the indices below \<open>length cs\<close>; and
  the index of an admitted coordinate is the number of admitted coordinates that precede
  it in the lexicographic order. The enumeration is a function of its three inputs and
  of nothing else, so running it again on the same inputs gives the same list.
\<close>

theorem site_enumeration:
  fixes sizes r0 condition
  defines "cs \<equiv> site_coords sizes r0 condition"
  defines "m \<equiv> make_ndx_map cs"
  shows "(\<forall>c. c \<in> set cs \<longleftrightarrow> admitted sizes r0 condition c) \<and>
         sorted_wrt lex_less cs \<and> distinct cs \<and>
         length m = length cs \<and>
         (\<forall>c i. map_of m c = Some i \<longleftrightarrow> i < length cs \<and> cs ! i = c) \<and>
         bij_betw (\<lambda>c. the (map_of m c)) (set cs) {..<length cs} \<and>
         (\<forall>c. admitted sizes r0 condition c \<longrightarrow>
            map_of m c = Some (card {c'. admitted sizes r0 condition c' \<and> lex_less c' c}))"
proof -
  have s: "sorted_wrt lex_less cs" and d: "distinct cs"
    unfolding cs_def by (rule sorted_site_coords, rule distinct_site_coords)
  have a: "c \<in> set cs \<longleftrightarrow> admitted sizes r0 condition c" for c
    unfolding cs_def by (rule set_site_coords)
  have lk: "map_of m c = Some i \<longleftrightarrow> i < length cs \<and> cs ! i = c" for c i
    unfolding m_def by (rule map_of_ndx_map[OF d])
  have bij: "bij_betw (\<lambda>c. the (map_of m c)) (set cs) {..<length cs}"
  proof (rule bij_betw_byWitness[where f' = "\<lambda>i. cs ! i"])
    show "\<forall>c\<in>set cs. cs ! the (map_of m c) = c"
      using lk by (metis in_set_conv_nth option.sel)
    show "\<forall>i\<in>{..<length cs}. the (map_of m (cs ! i)) = i"
      using lk by (metis lessThan_iff option.sel)
    show "(\<lambda>c. the (map_of m c)) ` set cs \<subseteq> {..<length cs}"
      using lk by (auto simp: in_set_conv_nth) (metis option.sel)
    show "(!) cs ` {..<length cs} \<subseteq> set cs"
      by auto
  qed
  have rank: "map_of m c = Some (card {c'. admitted sizes r0 condition c' \<and> lex_less c' c})"
    if "admitted sizes r0 condition c" for c
  proof -
    from that a have "c \<in> set cs" by blast
    then obtain i where i: "i < length cs" "cs ! i = c"
      unfolding in_set_conv_nth by blast
    have "{c'. admitted sizes r0 condition c' \<and> lex_less c' c} = {c' \<in> set cs. lex_less c' (cs ! i)}"
      using a i by auto
    then show ?thesis using rank_in_sorted[OF s i(1)] lk i by simp
  qed
  show ?thesis
    using s d a lk bij rank by (simp add: m_def length_make_ndx_map)
qed

theorem site_enumeration_witness:
  "admitted (2, 1, 2) (0, 0, 0) (\<lambda>c. True) (1, 0, 0) \<and>
   site_coords (2, 1, 2) (0, 0, 0) (\<lambda>c. True) ! 2 = (1, 0, 0) \<and>
   map_of (make_ndx_map (site_coords (2, 1, 2) (0, 0, 0) (\<lambda>c. True))) (1, 0, 0) = Some 2 \<and>
   card {c'. admitted (2, 1, 2) (0, 0, 0) (\<lambda>c. True) c' \<and> lex_less c' (1, 0, 0)} = 2"
proof -
  let ?cs = "site_coords (2, 1, 2) (0, 0, 0) (\<lambda>c. True)"
  have cs: "?cs = [(0, 0, 0), (0, 0, 1), (1, 0, 0), (1, 0, 1)]"
    by code_simp
  have a: "admitted (2, 1, 2) (0, 0, 0) (\<lambda>c. True) (1, 0, 0)"
    by simp
  from site_enumeration[of "(2, 1, 2)" "(0, 0, 0)" "\<lambda>c. True"]
  have lk: "map_of (make_ndx_map ?cs) (1, 0, 0) = Some 2 \<longleftrightarrow> 2 < length ?cs \<and> ?cs ! 2 = (1, 0, 0)"
    and rank: "map_of (make_ndx_map ?cs) (1, 0, 0)
       = Some (card {c'. admitted (2, 1, 2) (0, 0, 0) (\<lambda>c. True) c' \<and> lex_less c' (1, 0, 0)})"
    using a by blast+
  have "map_of (make_ndx_map ?cs) (1, 0, 0) = Some 2"
    using lk by (simp add: cs del: site_coords.simps)
  with rank a show ?thesis by (simp add: cs del: site_coords.simps admitted.simps)
qed

section \<open>Properties of the lattice construction\<close>

lemma in_make_hops:
  "(v, r, c) \<in> set (make_hops cs m hopping) \<longleftrightarrow>
     r < length cs \<and> (\<exists>dest. (v, dest) \<in> set (hopping (cs ! r)) \<and> map_of m dest = Some c)"
proof -
  have "(v, r, c) \<in> set (make_hops cs m hopping) \<longleftrightarrow>
      (\<exists>p \<in> set (enumerate 0 cs). \<exists>q \<in> set (hopping (snd p)).
          map_of m (snd q) \<noteq> None \<and> v = fst q \<and> r = fst p \<and> c = the (map_of m (snd q)))"
    unfolding make_hops_def by (auto simp: case_prod_unfold)
  also have "\<dots> \<longleftrightarrow> (\<exists>j < length cs. \<exists>q \<in> set (hopping (cs ! j)).
          map_of m (snd q) \<noteq> None \<and> v = fst q \<and> r = j \<and> c = the (map_of m (snd q)))"
  proof -
    have "(\<exists>p \<in> set (enumerate 0 cs). Q (fst p) (snd p)) \<longleftrightarrow> (\<exists>j < length cs. Q j (cs ! j))" for Q
    proof
      assume "\<exists>p \<in> set (enumerate 0 cs). Q (fst p) (snd p)"
      then show "\<exists>j < length cs. Q j (cs ! j)" by (auto simp: in_set_enumerate_eq)
    next
      assume "\<exists>j < length cs. Q j (cs ! j)"
      then obtain j where "j < length cs" "Q j (cs ! j)" by blast
      then have "(j, cs ! j) \<in> set (enumerate 0 cs)" "Q (fst (j, cs ! j)) (snd (j, cs ! j))"
        by (simp_all add: in_set_enumerate_eq)
      then show "\<exists>p \<in> set (enumerate 0 cs). Q (fst p) (snd p)" by blast
    qed
    from this[of "\<lambda>j orig. \<exists>q \<in> set (hopping orig).
          map_of m (snd q) \<noteq> None \<and> v = fst q \<and> r = j \<and> c = the (map_of m (snd q))"]
    show ?thesis .
  qed
  also have "\<dots> \<longleftrightarrow> r < length cs \<and> (\<exists>dest. (v, dest) \<in> set (hopping (cs ! r)) \<and> map_of m dest = Some c)"
    by force
  finally show ?thesis .
qed

lemma make_hops_in_range:
  assumes "distinct cs"
  shows "list_all (\<lambda>(v, r, c). r < length cs \<and> c < length cs) (make_hops cs (make_ndx_map cs) hopping)"
  unfolding list_all_iff
  using map_of_ndx_map[OF assms]
  by (auto simp: in_make_hops)

lemma comprehension_filter:
  "[v. (v, r, c) \<leftarrow> ts, P r c] = map fst (filter (\<lambda>(v, r, c). P r c) ts)"
  by (induction ts) auto

lemma map_filter_concat:
  "map f (filter P (concat (map F ps))) = concat (map (\<lambda>p. map f (filter P (F p))) ps)"
  by (induction ps) auto

lemma concat_map_Nil: "(\<And>x. x \<in> set xs \<Longrightarrow> F x = []) \<Longrightarrow> concat (map F xs) = []"
  by (induction xs) auto

lemma concat_enumerate_single:
  assumes "i < length xs" "\<And>j. j < length xs \<Longrightarrow> j \<noteq> i \<Longrightarrow> G (n + j, xs ! j) = []"
  shows "concat (map G (enumerate n xs)) = G (n + i, xs ! i)"
  using assms
proof (induction xs arbitrary: n i)
  case Nil
  then show ?case by simp
next
  case (Cons x xs)
  show ?case
  proof (cases i)
    case 0
    have "concat (map G (enumerate (Suc n) xs)) = []"
    proof (rule concat_map_Nil)
      fix p assume "p \<in> set (enumerate (Suc n) xs)"
      then obtain j where j: "j < length xs" "p = (Suc n + j, xs ! j)"
        by (metis in_set_conv_nth length_enumerate nth_enumerate_eq)
      from Cons.prems(2)[of "Suc j"] j 0 show "G p = []" by simp
    qed
    with 0 show ?thesis by simp
  next
    case (Suc i')
    have "G (n, x) = []" using Cons.prems(2)[of 0] Suc by simp
    moreover have "concat (map G (enumerate (Suc n) xs)) = G (Suc n + i', xs ! i')"
    proof (rule Cons.IH)
      show "i' < length xs" using Cons.prems(1) Suc by simp
      fix j assume "j < length xs" "j \<noteq> i'"
      with Cons.prems(2)[of "Suc j"] Suc show "G (Suc n + j, xs ! j) = []" by simp
    qed
    ultimately show ?thesis using Suc by simp
  qed
qed

text \<open>
  The weights that the list of hops gives for the position \<open>(i, k)\<close> are the weights that
  the rule gives at site \<open>i\<close> with the coordinate of site \<open>k\<close> as target, in the order of
  the rule.
\<close>

lemma hops_at:
  fixes hopping :: "'c \<Rightarrow> ('w \<times> 'c) list"
  assumes "distinct cs" "i < length cs" "k < length cs"
  shows "[v. (v, r, c) \<leftarrow> make_hops cs (make_ndx_map cs) hopping, r = i \<and> c = k]
       = [J. (J, dest) \<leftarrow> hopping (cs ! i), dest = cs ! k]"
proof -
  let ?m = "make_ndx_map cs"
  let ?F = "\<lambda>(i', orig). [(J, i', the (map_of ?m dest)). (J, dest) \<leftarrow> hopping orig, map_of ?m dest \<noteq> None]"
  let ?P = "\<lambda>(v, r, c). r = i \<and> c = k"
  let ?G = "\<lambda>p. map fst (filter ?P (?F p))"
  have key: "map_of ?m dest = Some k \<longleftrightarrow> dest = cs ! k" for dest
    using map_of_ndx_map[OF assms(1), of dest k] assms(3) by auto
  have hops: "make_hops cs ?m hopping = concat (map ?F (enumerate 0 cs))"
    unfolding make_hops_def by (simp add: case_prod_unfold)
  have "[v. (v, r, c) \<leftarrow> make_hops cs ?m hopping, r = i \<and> c = k]
      = concat (map ?G (enumerate 0 cs))"
    unfolding comprehension_filter hops map_filter_concat by simp
  also have "\<dots> = ?G (0 + i, cs ! i)"
  proof (rule concat_enumerate_single[OF assms(2)])
    fix j assume "j < length cs" "j \<noteq> i"
    have "filter ?P (?F (0 + j, cs ! j)) = []"
      using \<open>j \<noteq> i\<close> by (auto simp: filter_empty_conv)
    then show "?G (0 + j, cs ! j) = []" by simp
  qed
  also have "map fst (filter ?P [(J, i, the (map_of ?m dest)). (J, dest) \<leftarrow> hs, map_of ?m dest \<noteq> None])
      = [J. (J, dest) \<leftarrow> hs, dest = cs ! k]" for hs :: "('w \<times> 'c) list"
  proof (induction hs)
    case Nil
    then show ?case by simp
  next
    case (Cons h hs)
    obtain J dest where h: "h = (J, dest)" by (cases h)
    show ?case using Cons key[of dest] by (cases "map_of ?m dest") (auto simp: h)
  qed
  then have "?G (0 + i, cs ! i) = [J. (J, dest) \<leftarrow> hopping (cs ! i), dest = cs ! k]"
    by simp
  finally show ?thesis .
qed

lemma int_rows_Some:
  "int_rows hs = Some ws \<Longrightarrow> hs = map (\<lambda>(w, r, c). (PyInt w, r, c)) ws"
  by (induction hs arbitrary: ws rule: int_rows.induct) auto

lemma int_rows_None:
  "int_rows hs = None \<longleftrightarrow> (\<exists>t \<in> set hs. \<not> is_int (fst t))"
  by (induction hs rule: int_rows.induct) auto

lemma select_ints:
  "[v. (v, r, c) \<leftarrow> map (\<lambda>(w, r, c). (PyInt w, r, c)) ws, P r c]
     = map PyInt [v. (v, r, c) \<leftarrow> ws, P r c]"
  by (induction ws) auto

lemma select_floats:
  "[v. (v, r, c) \<leftarrow> [(f J, r, c). (J, r, c) \<leftarrow> hs], P r c] = map f [v. (v, r, c) \<leftarrow> hs, P r c]"
  by (induction hs) auto

lemma ints_of_targets:
  "[w. (PyInt w, dest) \<leftarrow> hs, dest = d] = [w. PyInt w \<leftarrow> [J. (J, dest) \<leftarrow> hs, dest = d]]"
  by (induction hs) (auto split: number.splits)

lemma ints_of_PyInt: "[w. PyInt w \<leftarrow> map PyInt ws] = ws"
  by (induction ws) auto

lemma map_targets: "map f [J. (J, dest) \<leftarrow> hs, dest = d] = [f J. (J, dest) \<leftarrow> hs, dest = d]"
  by (induction hs) auto

lemma in_range_ints:
  "list_all (\<lambda>(v, r, c). Q r c) (map (\<lambda>(w, r, c). (PyInt w, r, c)) ws)
     = list_all (\<lambda>(v, r, c). Q r c) ws"
  by (induction ws) auto

lemma in_range_floats:
  "list_all (\<lambda>(v, r, c). Q r c) [(f J, r, c). (J, r, c) \<leftarrow> hs] = list_all (\<lambda>(v, r, c). Q r c) hs"
  by (induction hs) auto

lemma csr_matrix_hops:
  assumes "distinct cs"
  shows "csr_matrix fl (np_array fl (make_hops cs (make_ndx_map cs) hopping)) (length cs, length cs)
     = Inr (mk_mat (length cs) (length cs)
         (\<lambda>i k. if int_rows (make_hops cs (make_ndx_map cs) hopping) \<noteq> None
                 then real_of_int (sint (sum_list [w. (PyInt w, dest) \<leftarrow> hopping (cs ! i), dest = cs ! k]))
                 else float64_total fl
                         [as_float fl J. (J, dest) \<leftarrow> hopping (cs ! i), dest = cs ! k]))"
proof (cases "int_rows (make_hops cs (make_ndx_map cs) hopping)")
  case None
  let ?hops = "make_hops cs (make_ndx_map cs) hopping"
  have r: "list_all (\<lambda>(v, r, c). r < length cs \<and> c < length cs)
      [(as_float fl J, r, c). (J, r, c) \<leftarrow> ?hops]"
    unfolding in_range_floats by (rule make_hops_in_range[OF assms])
  have e: "[v. (v, r, c) \<leftarrow> [(as_float fl J, r, c). (J, r, c) \<leftarrow> ?hops], r = i \<and> c = k]
      = [as_float fl J. (J, dest) \<leftarrow> hopping (cs ! i), dest = cs ! k]"
    if "i < length cs" "k < length cs" for i k
    unfolding select_floats hops_at[OF assms that] map_targets ..
  have "csr_matrix fl (np_array fl ?hops) (length cs, length cs)
      = Inr (mk_mat (length cs) (length cs)
          (\<lambda>i k. float64_total fl
                    [v. (v, r, c) \<leftarrow> [(as_float fl J, r, c). (J, r, c) \<leftarrow> ?hops], r = i \<and> c = k]))"
    unfolding csr_matrix_def np_array_def None using r by simp
  also have "mk_mat (length cs) (length cs)
          (\<lambda>i k. float64_total fl
                    [v. (v, r, c) \<leftarrow> [(as_float fl J, r, c). (J, r, c) \<leftarrow> ?hops], r = i \<and> c = k])
      = mk_mat (length cs) (length cs)
          (\<lambda>i k. float64_total fl
                    [as_float fl J. (J, dest) \<leftarrow> hopping (cs ! i), dest = cs ! k])"
    by (rule mk_mat_cong) (simp only: e)
  finally show ?thesis by (simp add: None)
next
  case (Some ws)
  let ?hops = "make_hops cs (make_ndx_map cs) hopping"
  note hs = int_rows_Some[OF Some]
  have r: "list_all (\<lambda>(v, r, c). r < length cs \<and> c < length cs) ws"
    using make_hops_in_range[OF assms, of hopping] unfolding hs in_range_ints .
  have e: "[v. (v, r, c) \<leftarrow> ws, r = i \<and> c = k]
      = [w. (PyInt w, dest) \<leftarrow> hopping (cs ! i), dest = cs ! k]"
    if "i < length cs" "k < length cs" for i k
  proof -
    have "map PyInt [v. (v, r, c) \<leftarrow> ws, r = i \<and> c = k]
        = [J. (J, dest) \<leftarrow> hopping (cs ! i), dest = cs ! k]"
      using hops_at[OF assms that, of hopping] unfolding hs select_ints .
    then have "[w. PyInt w \<leftarrow> map PyInt [v. (v, r, c) \<leftarrow> ws, r = i \<and> c = k]]
        = [w. PyInt w \<leftarrow> [J. (J, dest) \<leftarrow> hopping (cs ! i), dest = cs ! k]]"
      by (simp only:)
    then show ?thesis
      unfolding ints_of_PyInt ints_of_targets .
  qed
  have "csr_matrix fl (np_array fl ?hops) (length cs, length cs)
      = Inr (mk_mat (length cs) (length cs)
          (\<lambda>i k. real_of_int (sint (sum_list [v. (v, r, c) \<leftarrow> ws, r = i \<and> c = k]))))"
    unfolding csr_matrix_def np_array_def Some using r by simp
  also have "mk_mat (length cs) (length cs)
          (\<lambda>i k. real_of_int (sint (sum_list [v. (v, r, c) \<leftarrow> ws, r = i \<and> c = k])))
      = mk_mat (length cs) (length cs)
          (\<lambda>i k. real_of_int (sint (sum_list [w. (PyInt w, dest) \<leftarrow> hopping (cs ! i), dest = cs ! k])))"
    by (rule mk_mat_cong) (simp only: e)
  finally show ?thesis by (simp add: Some)
qed

lemma init_Inr:
  assumes "Regular3DLattice_init fl sizes hopping r0 condition = Inr L"
  defines "cs \<equiv> site_coords sizes r0 condition"
  shows "coord L = cs" "ndx_map L = make_ndx_map cs" "size_lat L = length cs"
    "H L = mk_mat (length cs) (length cs)
         (\<lambda>i k. if int_rows (make_hops cs (make_ndx_map cs) hopping) \<noteq> None
                 then real_of_int (sint (sum_list [w. (PyInt w, dest) \<leftarrow> hopping (cs ! i), dest = cs ! k]))
                 else float64_total fl
                         [as_float fl J. (J, dest) \<leftarrow> hopping (cs ! i), dest = cs ! k])"
    "make_hops cs (make_ndx_map cs) hopping \<noteq> []"
proof -
  let ?hops = "make_hops cs (make_ndx_map cs) hopping"
  let ?Hm = "mk_mat (length cs) (length cs)
         (\<lambda>i k. if int_rows ?hops \<noteq> None
                 then real_of_int (sint (sum_list [w. (PyInt w, dest) \<leftarrow> hopping (cs ! i), dest = cs ! k]))
                 else float64_total fl
                         [as_float fl J. (J, dest) \<leftarrow> hopping (cs ! i), dest = cs ! k])"
  have len: "length (make_ndx_map cs) = length cs"
    unfolding cs_def by (rule length_make_ndx_map[OF distinct_site_coords])
  have csr: "csr_matrix fl (np_array fl ?hops) (length (make_ndx_map cs), length (make_ndx_map cs))
      = Inr ?Hm"
    unfolding len unfolding cs_def by (rule csr_matrix_hops[OF distinct_site_coords])
  have init: "Regular3DLattice_init fl sizes hopping r0 condition
      = (if ?hops = [] then Inl IndexError
         else if cs = [] then Inl IndexError
         else Inr \<lparr>H = ?Hm, size_lat = nrows ?Hm,
                   dimension = (if snd (snd sizes) > 1 then 3
                                else if fst (snd sizes) > 1 then 2 else 1),
                   coord = cs, ndx_map = make_ndx_map cs,
                   Xmin = py_min (map fst cs),
                   Xmax = py_max (map fst cs),
                   Ymin = py_min (map (fst \<circ> snd) cs),
                   Ymax = py_max (map (fst \<circ> snd) cs),
                   Zmin = py_min (map (snd \<circ> snd) cs),
                   Zmax = py_max (map (snd \<circ> snd) cs)\<rparr>)"
    unfolding Regular3DLattice_init_def Let_def cs_def[symmetric] csr
    by (simp only: sum.case)
  from assms(1) show ne: "?hops \<noteq> []"
    unfolding init by (cases "?hops = []") simp_all
  from assms(1) ne have L: "L = \<lparr>H = ?Hm, size_lat = nrows ?Hm,
                   dimension = (if snd (snd sizes) > 1 then 3
                                else if fst (snd sizes) > 1 then 2 else 1),
                   coord = cs, ndx_map = make_ndx_map cs,
                   Xmin = py_min (map fst cs),
                   Xmax = py_max (map fst cs),
                   Ymin = py_min (map (fst \<circ> snd) cs),
                   Ymax = py_max (map (fst \<circ> snd) cs),
                   Zmin = py_min (map (snd \<circ> snd) cs),
                   Zmax = py_max (map (snd \<circ> snd) cs)\<rparr>"
    unfolding init by (cases "cs = []") simp_all
  show "coord L = cs" "ndx_map L = make_ndx_map cs" "size_lat L = length cs" "H L = ?Hm"
    unfolding L by simp_all
qed

lemma init_Inl:
  "Regular3DLattice_init fl sizes hopping r0 condition = Inl e \<longleftrightarrow>
     e = IndexError \<and>
     make_hops (site_coords sizes r0 condition) (make_ndx_map (site_coords sizes r0 condition)) hopping = []"
  using csr_matrix_hops[OF distinct_site_coords, of fl sizes r0 condition hopping]
  unfolding Regular3DLattice_init_def Let_def
  by (auto simp: length_make_ndx_map[OF distinct_site_coords] make_hops_def split: if_splits)

lemma make_hops_filter:
  fixes hopping :: "'c \<Rightarrow> ('w \<times> 'c) list"
  assumes "\<And>d y. map_of m d = Some y \<Longrightarrow> P d"
  shows "make_hops cs m (\<lambda>c. filter (\<lambda>(J, dest). P dest) (hopping c)) = make_hops cs m hopping"
proof -
  have "concat (map (\<lambda>(J, dest). if map_of m dest \<noteq> None then [(J, i, the (map_of m dest))] else [])
          (filter (\<lambda>(J, dest). P dest) hs))
      = concat (map (\<lambda>(J, dest). if map_of m dest \<noteq> None then [(J, i, the (map_of m dest))] else []) hs)"
    for hs :: "('w \<times> 'c) list" and i :: nat
  proof (induction hs)
    case Nil
    show ?case by simp
  next
    case (Cons h hs)
    show ?case using Cons assms[of "snd h"]
      by (cases "map_of m (snd h)") (auto simp: case_prod_unfold)
  qed
  then show ?thesis unfolding make_hops_def by simp
qed

text \<open>
  The list of hops holds a triple for every pair of the rule, at an admitted site, whose
  target is admitted, and for no other pair.
\<close>

lemma make_hops_admitted:
  "(\<exists>r c. (v, r, c) \<in> set (make_hops (site_coords sizes r0 condition)
              (make_ndx_map (site_coords sizes r0 condition)) hopping)) \<longleftrightarrow>
   (\<exists>orig dest. admitted sizes r0 condition orig \<and> (v, dest) \<in> set (hopping orig) \<and>
      admitted sizes r0 condition dest)"
proof -
  let ?cs = "site_coords sizes r0 condition"
  have lk: "map_of (make_ndx_map ?cs) d = Some y \<longleftrightarrow> y < length ?cs \<and> ?cs ! y = d" for d y
    by (rule map_of_ndx_map[OF distinct_site_coords])
  have adm: "admitted sizes r0 condition d \<longleftrightarrow> (\<exists>y < length ?cs. ?cs ! y = d)" for d
    using set_site_coords[of d sizes r0 condition] by (simp only: in_set_conv_nth)
  show ?thesis
    unfolding in_make_hops lk adm by blast
qed

text \<open>The sum of 64-bit integers is the sum of their values as long as it stays in range.\<close>

lemma signed_take_bit_add_right:
  "signed_take_bit n (a + signed_take_bit n b) = signed_take_bit n (a + b)" for a b :: int
  by (metis signed_take_bit_add signed_take_bit_signed_take_bit min.idem)

lemma sint_sum_list:
  "sint (sum_list ws) = signed_take_bit 63 (\<Sum>w\<leftarrow>ws. sint w)" for ws :: "64 word list"
proof (induction ws)
  case Nil
  show ?case by simp
next
  case (Cons w ws)
  have "sint (w + sum_list ws) = signed_take_bit 63 (sint w + sint (sum_list ws))"
    by (simp add: sint_word_ariths)
  also have "\<dots> = signed_take_bit 63 (sint w + (\<Sum>w\<leftarrow>ws. sint w))"
    unfolding Cons.IH by (rule signed_take_bit_add_right)
  finally show ?case by simp
qed

lemma sint_sum_list_exact:
  fixes ws :: "64 word list"
  assumes "- (2 ^ 63) \<le> (\<Sum>w\<leftarrow>ws. real_of_int (sint w))"
    and "(\<Sum>w\<leftarrow>ws. real_of_int (sint w)) < 2 ^ 63"
  shows "real_of_int (sint (sum_list ws)) = (\<Sum>w\<leftarrow>ws. real_of_int (sint w))"
proof -
  have r: "(\<Sum>w\<leftarrow>ws. real_of_int (sint w)) = real_of_int (\<Sum>w\<leftarrow>ws. sint w)"
    by (induction ws) simp_all
  have "real_of_int (- (2 ^ 63)) \<le> real_of_int (\<Sum>w\<leftarrow>ws. sint w)"
    using assms(1) unfolding r by simp
  then have lo: "- (2 ^ 63) \<le> (\<Sum>w\<leftarrow>ws. sint w)"
    by (simp only: of_int_le_iff)
  have "real_of_int (\<Sum>w\<leftarrow>ws. sint w) < real_of_int (2 ^ 63)"
    using assms(2) unfolding r by simp
  then have hi: "(\<Sum>w\<leftarrow>ws. sint w) < 2 ^ 63"
    by (simp only: of_int_less_iff)
  from lo hi have "signed_take_bit 63 (\<Sum>w\<leftarrow>ws. sint w) = (\<Sum>w\<leftarrow>ws. sint w)"
    by (simp add: signed_take_bit_int_eq_self_iff)
  then show ?thesis unfolding r sint_sum_list by simp
qed

lemma values_of_ints:
  assumes "\<forall>(J, dest) \<in> set hs. dest = d \<longrightarrow> is_int J"
  shows "[number_value J. (J, dest) \<leftarrow> hs, dest = d]
       = map (\<lambda>w. real_of_int (sint w)) [w. (PyInt w, dest) \<leftarrow> hs, dest = d]"
  using assms by (induction hs) (auto split: number.splits)

lemma as_float_exact: "as_float exact = number_value"
proof
  fix J show "as_float exact J = number_value J"
    by (cases J) (simp_all add: exact_def)
qed

lemma targets_exact:
  "[as_float exact J. (J, dest) \<leftarrow> hs, dest = d] = [number_value J. (J, dest) \<leftarrow> hs, dest = d]"
  by (induction hs) (auto simp: as_float_exact)

lemma float64_total_exact: "float64_total exact ys = sum_list ys"
  by (simp add: float64_total_def exact_def split: list.splits)




text \<open>
  Claim C7. On a constructed lattice, \<open>coupling_at\<close> raises \<open>InvalidPosition\<close> for a
  coordinate that is not admitted, and for an admitted one it returns a vector with one
  entry per site that holds the strength at the index of the coordinate and zero
  everywhere else; so it raises exactly when the coordinate is not admitted.
\<close>

theorem coupling_at_spec:
  assumes "Regular3DLattice_init fl sizes hopping r0 condition = Inr L"
  shows "(\<not> admitted sizes r0 condition r \<longrightarrow> coupling_at L r strength = Inl InvalidPosition) \<and>
         (admitted sizes r0 condition r \<longrightarrow>
            (\<exists>i v. i < length (coord L) \<and> coord L ! i = r \<and>
               coupling_at L r strength = Inr v \<and> length v = length (coord L) \<and>
               v ! i = strength \<and> (\<forall>j < length v. j \<noteq> i \<longrightarrow> v ! j = 0)))"
proof -
  let ?cs = "site_coords sizes r0 condition"
  have c: "coord L = ?cs" and m: "ndx_map L = make_ndx_map ?cs" and n: "size_lat L = length ?cs"
    using init_Inr[OF assms] by blast+
  have lk: "map_of (make_ndx_map ?cs) r = Some i \<longleftrightarrow> i < length ?cs \<and> ?cs ! i = r" for i
    by (rule map_of_ndx_map[OF distinct_site_coords])
  show ?thesis
  proof (cases "admitted sizes r0 condition r")
    case False
    then have "r \<notin> set ?cs" by (simp only: set_site_coords not_False_eq_True)
    then have "map_of (make_ndx_map ?cs) r \<noteq> Some i" for i
      unfolding lk using nth_mem by blast
    then have "map_of (make_ndx_map ?cs) r = None"
      by (cases "map_of (make_ndx_map ?cs) r") blast+
    then have "coupling_at L r strength = Inl InvalidPosition"
      unfolding coupling_at_def m by simp
    with False show ?thesis by blast
  next
    case True
    then have "r \<in> set ?cs" by (simp only: set_site_coords)
    then obtain i where i: "i < length ?cs" "?cs ! i = r"
      unfolding in_set_conv_nth by blast
    then have "map_of (make_ndx_map ?cs) r = Some i" unfolding lk by blast
    then have "coupling_at L r strength = Inr ((replicate (length ?cs) 0)[i := strength])"
      unfolding coupling_at_def m n using i(1) by simp
    moreover have "length ((replicate (length ?cs) (0::real))[i := strength]) = length ?cs"
      by simp
    moreover have "(replicate (length ?cs) (0::real))[i := strength] ! i = strength"
      using i(1) by simp
    moreover have "\<forall>j < length ((replicate (length ?cs) (0::real))[i := strength]).
        j \<noteq> i \<longrightarrow> (replicate (length ?cs) (0::real))[i := strength] ! j = 0"
      by simp
    ultimately show ?thesis
      unfolding c using i True by blast
  qed
qed

theorem coupling_at_spec_witness:
  "\<exists>L. Regular3DLattice_init exact (3, 1, 1) (hopping1d (PyInt 1) (PyInt 2)) (0, 0, 0) (\<lambda>c. True) = Inr L \<and>
     admitted (3, 1, 1) (0, 0, 0) (\<lambda>c. True) (1, 0, 0) \<and>
     coupling_at L (1, 0, 0) 5 = Inr [0, 5, 0] \<and>
     \<not> admitted (3, 1, 1) (0, 0, 0) (\<lambda>c. True) (1, 1, 0) \<and>
     coupling_at L (1, 1, 0) 5 = Inl InvalidPosition"
proof -
  let ?L = "\<lparr>H = Mat 3 3 [[2, 1, 0], [1, 2, 1], [0, 1, 2]], size_lat = 3,
        dimension = 1, coord = [(0, 0, 0), (1, 0, 0), (2, 0, 0)],
        ndx_map = [((0, 0, 0), 0), ((1, 0, 0), 1), ((2, 0, 0), 2)],
        Xmin = 0, Xmax = 2, Ymin = 0, Ymax = 0, Zmin = 0, Zmax = 0\<rparr>"
  have i: "Regular3DLattice_init exact (3, 1, 1) (hopping1d (PyInt 1) (PyInt 2)) (0, 0, 0) (\<lambda>c. True) = Inr ?L"
    by code_simp
  have "coupling_at ?L (1, 1, 0) 5 = Inl InvalidPosition"
    using coupling_at_spec[OF i, of "(1, 1, 0)" 5] by simp
  moreover have "coupling_at ?L (1, 0, 0) 5 = Inr [0, 5, 0]"
    by code_simp
  ultimately show ?thesis using i by (intro exI[of _ ?L]) simp
qed

text \<open>
  The construction fails whenever no pair of the hopping rule connects two admitted
  sites: in particular when no coordinate is admitted at all.
\<close>

lemma no_hops_raises:
  "(\<forall>c. admitted sizes r0 condition c \<longrightarrow>
        (\<forall>(J, dest) \<in> set (hopping c). \<not> admitted sizes r0 condition dest)) \<Longrightarrow>
   Regular3DLattice_init fl sizes hopping r0 condition = Inl IndexError"
proof -
  assume a: "\<forall>c. admitted sizes r0 condition c \<longrightarrow>
        (\<forall>(J, dest) \<in> set (hopping c). \<not> admitted sizes r0 condition dest)"
  let ?cs = "site_coords sizes r0 condition"
  have "set (make_hops ?cs (make_ndx_map ?cs) hopping) = {}"
  proof (rule ccontr)
    assume "set (make_hops ?cs (make_ndx_map ?cs) hopping) \<noteq> {}"
    then obtain v r c where "(v, r, c) \<in> set (make_hops ?cs (make_ndx_map ?cs) hopping)"
      by (metis ex_in_conv prod_cases3)
    then have "\<exists>orig dest. admitted sizes r0 condition orig \<and> (v, dest) \<in> set (hopping orig) \<and>
        admitted sizes r0 condition dest"
      unfolding make_hops_admitted[symmetric] by blast
    then show False using a by blast
  qed
  then show ?thesis by (simp add: init_Inl)
qed

text \<open>
  Claim C8 says that the construction has no error condition and that an empty admitted
  set gives a lattice with no site. The code raises \<open>IndexError\<close> there: the list of
  hops is empty, \<^verbatim>\<open>np.array\<close> makes a one-dimensional array of it and \<^verbatim>\<open>hops[:,0]\<close>
  indexes two dimensions.
\<close>

theorem empty_lattice_raises:
  "Regular3DLattice_init fl (1, 1, 1) (hopping1d (PyFloat 1) (PyFloat 1)) (0, 0, 0) (\<lambda>c. False) = Inl IndexError"
  by (simp add: Regular3DLattice_init_def Let_def py_range_def make_hops_def)

section \<open>Properties of the spectrum functions\<close>

lemma mset_np_argsort: "mset (np_argsort xs) = mset [0..<length xs]"
proof -
  have "mset (np_argsort xs) = image_mset snd (mset (sort_key fst (zip xs [0..<length xs])))"
    unfolding np_argsort_def by (simp only: mset_map)
  also have "\<dots> = image_mset snd (mset (zip xs [0..<length xs]))"
    by (simp only: mset_sort)
  also have "\<dots> = mset (map snd (zip xs [0..<length xs]))"
    by (simp only: mset_map)
  also have "map snd (zip xs [0..<length xs]) = [0..<length xs]"
    by (simp only: map_snd_zip length_upt diff_zero)
  finally show ?thesis .
qed

lemma set_np_argsort: "set (np_argsort xs) = {..<length xs}"
  using mset_eq_setD[OF mset_np_argsort[of xs]] by (simp add: lessThan_atLeast0)

lemma length_np_argsort: "length (np_argsort xs) = length xs"
  by (simp add: np_argsort_def)

lemma distinct_np_argsort: "distinct (np_argsort xs)"
  by (simp only: mset_eq_imp_distinct_iff[OF mset_np_argsort] distinct_upt)

lemma take_np_argsort: "map (\<lambda>i. xs ! i) (np_argsort xs) = sort xs"
proof -
  let ?ps = "zip xs [0..<length xs]"
  have "\<forall>p \<in> set (sort_key fst ?ps). xs ! snd p = fst p"
    by (auto simp: in_set_zip)
  then have "map (\<lambda>i. xs ! i) (np_argsort xs) = map fst (sort_key fst ?ps)"
    unfolding np_argsort_def by (simp add: comp_def)
  also have "\<dots> = sort (map fst ?ps)"
  proof (rule properties_for_sort[symmetric])
    show "mset (map fst (sort_key fst ?ps)) = mset (map fst ?ps)"
      by (simp only: mset_map mset_sort)
    show "sorted (map fst (sort_key fst ?ps))"
      by (rule sorted_sort_key)
  qed
  also have "map fst ?ps = xs" by simp
  finally show ?thesis .
qed

lemma lowest_eigenvalues_Inr:
  "eigsh Hop neig = Inr raw \<Longrightarrow> lowest_eigenvalues eigsh Hop neig = Inr (sort raw)"
  by (simp add: lowest_eigenvalues_def np_sort_def)

lemma sort_perm: "mset raw' = mset raw \<Longrightarrow> sort raw' = sort raw"
  for raw :: "real list"
  by (rule properties_for_sort) simp_all

lemma lowest_eigenstates_Inr:
  assumes "eigsh Hop neig = Inr (raw, psi)" "length raw = ncols psi"
  shows "lowest_eigenstates eigsh Hop neig
    = Inr (sort raw, mk_mat (nrows psi) (length raw) (\<lambda>i j. entry psi i (np_argsort raw ! j)))"
proof -
  have in_range: "list_all (\<lambda>i. i < length raw) (np_argsort raw)"
    unfolding list_all_iff set_np_argsort by blast
  then have 1: "take_idx raw (np_argsort raw) = Inr (sort raw)"
    unfolding take_idx_def by (simp only: take_np_argsort if_True)
  have 2: "take_cols psi (np_argsort raw)
     = Inr (mk_mat (nrows psi) (length raw) (\<lambda>i j. entry psi i (np_argsort raw ! j)))"
    unfolding take_cols_def using in_range
    by (simp only: assms(2)[symmetric] length_np_argsort if_True)
  show ?thesis
    by (simp add: lowest_eigenstates_def assms(1) 1 2)
qed

lemma nth_sort_argsort:
  assumes "j < length raw"
  shows "sort raw ! j = raw ! (np_argsort raw ! j)"
proof -
  have "sort raw ! j = map (\<lambda>i. raw ! i) (np_argsort raw) ! j"
    by (simp only: take_np_argsort)
  also have "\<dots> = raw ! (np_argsort raw ! j)"
    by (rule nth_map) (simp only: length_np_argsort assms)
  finally show ?thesis .
qed


text \<open>
  Claim C6. Whatever the order in which the solver returns its \<open>neig\<close> eigenvalues,
  \<open>lowest_eigenvalues\<close> returns the same values as a non-decreasing sequence of length
  \<open>neig\<close>, and a solver that returns them in another order leads to the same result;
  \<open>lowest_eigenstates\<close> returns the eigenvalues in non-decreasing order together with
  the columns of the solver's matrix rearranged by one permutation \<open>ndx\<close> of the column
  indices, the same for both: entry \<open>j\<close> of the result is the raw eigenvalue
  \<open>ndx ! j\<close> and column \<open>j\<close> of the result is the raw column \<open>ndx ! j\<close>.
\<close>

theorem spectrum_sorted:
  "(eigsh_values Hop neig = Inr raw \<longrightarrow> length raw = neig \<longrightarrow>
      (\<exists>lam. lowest_eigenvalues eigsh_values Hop neig = Inr lam \<and>
         sorted lam \<and> length lam = neig \<and> mset lam = mset raw \<and>
         (\<forall>eigsh' raw'. eigsh' Hop neig = Inr raw' \<longrightarrow> mset raw' = mset raw \<longrightarrow>
            lowest_eigenvalues eigsh' Hop neig = Inr lam))) \<and>
   (eigsh_vectors Hop neig = Inr (raw, psi) \<longrightarrow> length raw = neig \<longrightarrow> ncols psi = neig \<longrightarrow>
      (\<exists>lam psi' ndx. lowest_eigenstates eigsh_vectors Hop neig = Inr (lam, psi') \<and>
         sorted lam \<and> length lam = neig \<and> mset lam = mset raw \<and>
         mset ndx = mset [0..<neig] \<and>
         nrows psi' = nrows psi \<and> ncols psi' = neig \<and>
         (\<forall>j < neig. lam ! j = raw ! (ndx ! j) \<and>
            (\<forall>i < nrows psi. entry psi' i j = entry psi i (ndx ! j)))))"
proof (intro conjI impI)
  assume raw: "eigsh_values Hop neig = Inr raw" and len: "length raw = neig"
  have inv: "lowest_eigenvalues eigsh' Hop neig = Inr (sort raw)"
    if "eigsh' Hop neig = Inr raw'" "mset raw' = mset raw" for eigsh' raw'
    using lowest_eigenvalues_Inr[of eigsh' Hop neig raw'] that(1) sort_perm[OF that(2)] by simp
  have "lowest_eigenvalues eigsh_values Hop neig = Inr (sort raw) \<and>
         sorted (sort raw) \<and> length (sort raw) = neig \<and> mset (sort raw) = mset raw"
    using lowest_eigenvalues_Inr[of eigsh_values Hop neig raw] raw len by simp
  with inv show "\<exists>lam. lowest_eigenvalues eigsh_values Hop neig = Inr lam \<and>
         sorted lam \<and> length lam = neig \<and> mset lam = mset raw \<and>
         (\<forall>eigsh' raw'. eigsh' Hop neig = Inr raw' \<longrightarrow> mset raw' = mset raw \<longrightarrow>
            lowest_eigenvalues eigsh' Hop neig = Inr lam)"
    by blast
next
  assume raw: "eigsh_vectors Hop neig = Inr (raw, psi)"
    and len: "length raw = neig" and cols: "ncols psi = neig"
  let ?ndx = "np_argsort raw"
  let ?psi = "mk_mat (nrows psi) (length raw) (\<lambda>i j. entry psi i (?ndx ! j))"
  have res: "lowest_eigenstates eigsh_vectors Hop neig = Inr (sort raw, ?psi)"
    using lowest_eigenstates_Inr[of eigsh_vectors Hop neig raw psi] raw len cols by simp
  have basic: "sorted (sort raw) \<and> length (sort raw) = neig \<and> mset (sort raw) = mset raw \<and>
      mset ?ndx = mset [0..<neig] \<and> nrows ?psi = nrows psi \<and> ncols ?psi = neig"
    using len by (simp add: mset_np_argsort)
  have cols': "\<forall>j < neig. sort raw ! j = raw ! (?ndx ! j) \<and>
            (\<forall>i < nrows psi. entry ?psi i j = entry psi i (?ndx ! j))"
    using nth_sort_argsort[of _ raw] len by simp
  from res basic cols'
  show "\<exists>lam psi' ndx. lowest_eigenstates eigsh_vectors Hop neig = Inr (lam, psi') \<and>
         sorted lam \<and> length lam = neig \<and> mset lam = mset raw \<and>
         mset ndx = mset [0..<neig] \<and>
         nrows psi' = nrows psi \<and> ncols psi' = neig \<and>
         (\<forall>j < neig. lam ! j = raw ! (ndx ! j) \<and>
            (\<forall>i < nrows psi. entry psi' i j = entry psi i (ndx ! j)))"
    by blast
qed

theorem spectrum_sorted_witness:
  "lowest_eigenvalues (\<lambda>Hop n. Inr [3, 1, 2]) () 3 = Inr [1, 2, 3] \<and>
   lowest_eigenvalues (\<lambda>Hop n. Inr [2, 3, 1]) () 3 = Inr [1, 2, 3] \<and>
   lowest_eigenstates (\<lambda>Hop n. Inr ([3, 1, 2], Mat 2 3 [[30, 10, 20], [31, 11, 21]])) () 3
     = Inr ([1, 2, 3], Mat 2 3 [[10, 20, 30], [11, 21, 31]])"
proof -
  let ?s = "\<lambda>(Hop :: unit) (n :: nat). Inr [3, 1, 2 :: real] :: error + real list"
  let ?s' = "\<lambda>(Hop :: unit) (n :: nat). Inr [2, 3, 1 :: real] :: error + real list"
  let ?M = "Mat 2 3 [[30, 10, 20], [31, 11, 21]]"
  let ?v = "\<lambda>(Hop :: unit) (n :: nat). Inr ([3, 1, 2 :: real], ?M) :: error + real list \<times> mat"
  have e1: "lowest_eigenvalues ?s () 3 = Inr [1, 2, 3]"
    by code_simp
  have e3: "lowest_eigenstates ?v () 3 = Inr ([1, 2, 3], Mat 2 3 [[10, 20, 30], [11, 21, 31]])"
    by code_simp
  have m: "mset [2, 3, 1 :: real] = mset [3, 1, 2]"
    by simp
  note t = spectrum_sorted[of ?s "()" 3 "[3, 1, 2]" ?v ?M, THEN conjunct1, rule_format]
  have "\<exists>lam. lowest_eigenvalues ?s () 3 = Inr lam \<and>
         sorted lam \<and> length lam = 3 \<and> mset lam = mset [3, 1, 2] \<and>
         (\<forall>eigsh' raw'. eigsh' () 3 = Inr raw' \<longrightarrow> mset raw' = mset [3, 1, 2 :: real] \<longrightarrow>
            lowest_eigenvalues eigsh' () 3 = Inr lam)"
    by (rule t) simp_all
  then obtain lam where lam: "lowest_eigenvalues ?s () 3 = Inr lam"
    and inv: "\<forall>eigsh' raw'. eigsh' () 3 = Inr raw' \<longrightarrow> mset raw' = mset [3, 1, 2 :: real] \<longrightarrow>
            lowest_eigenvalues eigsh' () 3 = Inr lam"
    by (elim exE conjE)
  from lam e1 have "lam = [1, 2, 3]" by simp
  with inv[rule_format, of ?s' "[2, 3, 1]"] m
  have e2: "lowest_eigenvalues ?s' () 3 = Inr [1, 2, 3]"
    by simp
  from e1 e2 e3 show ?thesis by (intro conjI)
qed

section \<open>Properties of the coupled transmons\<close>

subsection \<open>Sums and shapes\<close>

lemma py_sum_Nil [simp]: "py_sum [] = PyInt0"
  by (simp add: py_sum_def)

lemma py_sum_snoc: "py_sum (xs @ [A]) = py_add (py_sum xs) (M A)"
  by (simp add: py_sum_def)

lemma py_sum_shape:
  assumes "xs \<noteq> []" "\<And>A. A \<in> set xs \<Longrightarrow> nrows A = r \<and> ncols A = c"
  shows "\<exists>R. py_sum xs = M R \<and> nrows R = r \<and> ncols R = c \<and>
           (\<forall>i j. entry R i j = (\<Sum>A\<leftarrow>xs. entry A i j))"
  using assms
proof (induction xs rule: rev_induct)
  case Nil
  then show ?case by simp
next
  case (snoc A xs)
  show ?case
  proof (cases "xs = []")
    case True
    then show ?thesis using snoc.prems(2)[of A] by (simp add: py_sum_def)
  next
    case False
    with snoc obtain R where R: "py_sum xs = M R" "nrows R = r" "ncols R = c"
      "\<forall>i j. entry R i j = (\<Sum>A\<leftarrow>xs. entry A i j)"
      by auto
    have A: "nrows A = r" "ncols A = c" using snoc.prems(2)[of A] by simp_all
    show ?thesis
      unfolding py_sum_snoc R(1)
      by (simp add: entry_mat_add R A)
  qed
qed

lemma den_py_sum:
  assumes "\<And>A. A \<in> set xs \<Longrightarrow> nrows A = r \<and> ncols A = c"
  shows "den (py_sum xs) i j = (\<Sum>A\<leftarrow>xs. entry A i j)"
proof (cases "xs = []")
  case True
  then show ?thesis by (simp add: den_def)
next
  case False
  from py_sum_shape[OF False assms] obtain R where "py_sum xs = M R"
    "\<forall>i j. entry R i j = (\<Sum>A\<leftarrow>xs. entry A i j)" by blast
  then show ?thesis by (simp add: den_def)
qed

lemma py_sum_cases:
  assumes "\<And>A. A \<in> set xs \<Longrightarrow> nrows A = r \<and> ncols A = c"
  shows "py_sum xs = PyInt0 \<or> (\<exists>R. py_sum xs = M R \<and> nrows R = r \<and> ncols R = c)"
proof (cases "xs = []")
  case True
  then show ?thesis by simp
next
  case False
  from py_sum_shape[OF False assms] show ?thesis by blast
qed

lemma py_add_M:
  assumes "v = PyInt0 \<or> (\<exists>B. v = M B \<and> nrows B = nrows A \<and> ncols B = ncols A)"
  shows "\<exists>R. py_add (M A) v = M R \<and> nrows R = nrows A \<and> ncols R = ncols A \<and>
           (normal A \<longrightarrow> normal R) \<and> (\<forall>i j. entry R i j = entry A i j + den v i j)"
  using assms by (auto simp: den_def entry_mat_add)

lemma arr_sub_props:
  assumes "v = PyInt0 \<or> (\<exists>B. v = M B \<and> nrows B = nrows A \<and> ncols B = ncols A)"
  shows "nrows (arr_sub A v) = nrows A \<and> ncols (arr_sub A v) = ncols A \<and>
           (normal A \<longrightarrow> normal (arr_sub A v)) \<and>
           (\<forall>i j. entry (arr_sub A v) i j = entry A i j - den v i j)"
  using assms by (auto simp: den_def entry_mat_sub)

lemma arr_add_props:
  assumes "v = PyInt0 \<or> (\<exists>B. v = M B \<and> nrows B = nrows A \<and> ncols B = ncols A)"
  shows "nrows (arr_add A v) = nrows A \<and> ncols (arr_add A v) = ncols A \<and>
           (normal A \<longrightarrow> normal (arr_add A v)) \<and>
           (\<forall>i j. entry (arr_add A v) i j = entry A i j + den v i j)"
  using assms by (auto simp: den_def entry_mat_add)

lemma pow_split: "j < n \<Longrightarrow> d ^ j * (d * d ^ (n - j - 1)) = (d::nat) ^ n"
proof -
  assume "j < n"
  then have "n = j + Suc (n - j - 1)" by simp
  then have "d ^ n = d ^ (j + Suc (n - j - 1))" by simp
  also have "\<dots> = d ^ j * (d * d ^ (n - j - 1))" by (simp only: power_add power_Suc)
  finally show ?thesis by simp
qed

lemma qubit_operator_shape:
  assumes "j < n" "nrows op = d" "ncols op = d"
  shows "nrows (qubit_operator op j n) = d ^ n \<and> ncols (qubit_operator op j n) = d ^ n"
  using pow_split[OF assms(1), of d] by (simp add: qubit_operator_def Let_def assms)

lemma bc_dim_sym: "bc_dim a b = bc_dim b a"
  by (auto simp: bc_dim_def)

lemma bc_dim_fixed: "bc_dim a n = Some r \<Longrightarrow> n \<noteq> 1 \<Longrightarrow> r = n"
  by (auto simp: bc_dim_def split: if_splits)

lemma np_binop_symmetric:
  assumes "np_binop (+) G (transpose_mat G) = Inr S"
  shows "transpose_mat S = S"
proof -
  from assms obtain r c where r: "bc_dim (nrows G) (ncols G) = Some r"
    and c: "bc_dim (ncols G) (nrows G) = Some c"
    by (auto simp: np_binop_def split: option.splits)
  from r c have rc: "c = r" by (simp add: bc_dim_sym[of "ncols G"])
  let ?a = "\<lambda>i. if nrows G = 1 then 0 else i"
  let ?b = "\<lambda>j. if ncols G = 1 then 0 else j"
  have S: "S = mk_mat r r (\<lambda>i j. entry G (?a i) (?b j) + entry G (?a j) (?b i))"
    using assms r c by (simp add: np_binop_def rc)
  show ?thesis
    unfolding S transpose_mat_def nrows_mk_mat ncols_mk_mat
    by (rule mk_mat_cong) simp
qed

lemma np_binop_shape:
  assumes "np_binop f A B = Inr S" "nrows A = n" "ncols A = n" "nrows B = n" "ncols B = n"
  shows "nrows S = n \<and> ncols S = n"
  using assms by (auto simp: np_binop_def bc_dim_def split: if_splits)

lemma times_ones2_shape:
  assumes "times_ones2 c n = Inr G" "n \<noteq> 1"
  shows "nrows G = n \<and> ncols G = n"
proof (cases c)
  case (GScalar x)
  with assms show ?thesis by (auto simp: times_ones2_def)
next
  case (GMatrix A)
  with assms(1) obtain r c' where "bc_dim (nrows A) n = Some r" "bc_dim (ncols A) n = Some c'"
    and G: "nrows G = r" "ncols G = c'"
    by (auto simp: times_ones2_def np_binop_def split: option.splits)
  with bc_dim_fixed[OF _ assms(2)] show ?thesis by auto
qed

lemma transpose_mat_div: "transpose_mat (mat_div A c) = mat_div (transpose_mat A) c"
  unfolding transpose_mat_def mat_div_def nrows_mk_mat ncols_mk_mat
  by (rule mk_mat_cong) (simp add: entry_mat_div[unfolded mat_div_def])

lemma transpose_mat_scale: "transpose_mat (mat_scale c A) = mat_scale c (transpose_mat A)"
  unfolding transpose_mat_def mat_scale_def nrows_mk_mat ncols_mk_mat
  by (rule mk_mat_cong) (simp add: entry_mat_scale[unfolded mat_scale_def])

lemma symmetrized:
  assumes "times_ones2 c n = Inr g1" "np_binop (+) g1 (transpose_mat g1) = Inr g2"
  shows "transpose_mat (mat_div g2 2) = mat_div g2 2"
    "transpose_mat (mat_scale 0.5 g2) = mat_scale 0.5 g2"
    "n \<noteq> 1 \<Longrightarrow> nrows g2 = n \<and> ncols g2 = n"
proof -
  show "transpose_mat (mat_div g2 2) = mat_div g2 2"
    by (simp only: transpose_mat_div np_binop_symmetric[OF assms(2)])
  show "transpose_mat (mat_scale 0.5 g2) = mat_scale 0.5 g2"
    by (simp only: transpose_mat_scale np_binop_symmetric[OF assms(2)])
  assume "n \<noteq> 1"
  from times_ones2_shape[OF assms(1) this] show "nrows g2 = n \<and> ncols g2 = n"
    by (intro np_binop_shape[OF assms(2)]) simp_all
qed

lemma Transmons_init_fields:
  assumes "Transmons_init nq Ec0 EJ0 g0 ng0 nmax0 = Inr t"
  shows "times_ones Ec0 nq = Inr (Ec t)" "times_ones ng0 nq = Inr (ng t)"
    "times_ones EJ0 nq = Inr (EJ t)"
    "length (Ec t) = nq" "length (ng t) = nq" "length (EJ t) = nq"
    "\<exists>g1 g2. times_ones2 g0 nq = Inr g1 \<and> np_binop (+) g1 (transpose_mat g1) = Inr g2 \<and>
        g t = mat_div g2 2"
    "nqubits t = nq" "nmax t = nmax0"
    "shape t = ((2 * nmax0 + 1) ^ nq, (2 * nmax0 + 1) ^ nq)"
    "N t = map (\<lambda>j. qubit_operator (sp_diags (np_arange_sym nmax0) 0
                (2 * nmax0 + 1, 2 * nmax0 + 1)) j nq) [0..<nq]"
    "Hcap t = py_sum (map (\<lambda>(ngi, Eci, Ni). mat_scale (4 * Eci)
                  (let D = mat_sub Ni (mat_scale ngi (eye ((2 * nmax0 + 1) ^ nq))) in matmul D D))
                (zip (ng t) (zip (Ec t) (N t))))"
    "HJJ t = map (\<lambda>j. qubit_operator (mat_div (mat_add (sp_diags [1] 1 (2 * nmax0 + 1, 2 * nmax0 + 1))
                  (transpose_mat (sp_diags [1] 1 (2 * nmax0 + 1, 2 * nmax0 + 1)))) 2) j nq)
              [0..<nq]"
  using assms unfolding Transmons_init_def Let_def
  by (auto split: sum.splits if_splits simp: enumerate_eq_zip case_prod_unfold
      intro!: nth_equalityI)

lemma init_inv:
  assumes "Transmons_init nq Ec0 EJ0 g0 ng0 nmax0 = Inr t"
  shows "transmons_inv t"
proof -
  note f = Transmons_init_fields[OF assms]
  let ?d = "2 * nmax0 + 1"
  let ?fd = "?d ^ nq"
  have lenN: "length (N t) = nq" by (simp add: f(11))
  have lenH: "length (HJJ t) = nq" by (simp add: f(13))
  have shN: "nrows A = ?fd \<and> ncols A = ?fd" if "A \<in> set (N t)" for A
    using that qubit_operator_shape[of _ nq _ ?d] by (auto simp: f(11))
  have shH: "nrows A = ?fd \<and> ncols A = ?fd" if "A \<in> set (HJJ t)" for A
    using that qubit_operator_shape[of _ nq _ ?d] by (auto simp: f(13))
  let ?terms = "map (\<lambda>(ngi, Eci, Ni). mat_scale (4 * Eci)
                  (let D = mat_sub Ni (mat_scale ngi (eye ?fd)) in matmul D D))
                (zip (ng t) (zip (Ec t) (N t)))"
  have lenT: "length ?terms = nq" by (simp add: f lenN)
  have shT: "nrows A = ?fd \<and> ncols A = ?fd" if "A \<in> set ?terms" for A
  proof -
    from that obtain ngi Eci Ni where "Ni \<in> set (N t)"
      "A = mat_scale (4 * Eci) (let D = mat_sub Ni (mat_scale ngi (eye ?fd)) in matmul D D)"
      by (auto dest!: set_zip_rightD)
    with shN show ?thesis by (simp add: Let_def)
  qed
  have Hc: "case Hcap t of PyInt0 \<Rightarrow> nq = 0 | M Hc \<Rightarrow> 0 < nq \<and> nrows Hc = ?fd \<and> ncols Hc = ?fd"
  proof (cases "nq = 0")
    case True
    with lenT have "?terms = []" by (simp only: length_0_conv)
    then have "Hcap t = PyInt0" by (simp only: f(12) py_sum_Nil)
    with True show ?thesis by simp
  next
    case False
    then have "?terms \<noteq> []" using lenT by auto
    from py_sum_shape[OF this shT] False show ?thesis by (auto simp: f(12))
  qed
  from f(7) obtain g1 g2 where g: "times_ones2 g0 nq = Inr g1"
    "np_binop (+) g1 (transpose_mat g1) = Inr g2" "g t = mat_div g2 2" by blast
  note sym = symmetrized[OF g(1,2)]
  show ?thesis
    unfolding transmons_inv_def Let_def f(8) f(9)
    using lenN lenH shN shH Hc sym(1) sym(3)
    by (simp add: list_all_iff g(3))
qed

lemma tune_fields:
  assumes "tune t EJ0 g0 = Inr t'"
  shows "nqubits t' = nqubits t" "nmax t' = nmax t" "N t' = N t" "HJJ t' = HJJ t"
    "Hcap t' = Hcap t" "Ec t' = Ec t" "ng t' = ng t" "shape t' = shape t"
    "case EJ0 of None \<Rightarrow> EJ t' = EJ t | Some p \<Rightarrow> times_ones p (nqubits t) = Inr (EJ t')"
    "case g0 of None \<Rightarrow> g t' = g t
     | Some c \<Rightarrow> (\<exists>g1 g2. times_ones2 c (nqubits t) = Inr g1 \<and>
          np_binop (+) g1 (transpose_mat g1) = Inr g2 \<and> g t' = mat_scale 0.5 g2)"
  using assms unfolding tune_def Let_def
  by (auto split: sum.splits option.splits)

lemma tune_inv:
  assumes "transmons_inv t" "tune t EJ0 g0 = Inr t'"
  shows "transmons_inv t'"
proof -
  note f = tune_fields[OF assms(2)]
  have "(nqubits t \<noteq> 1 \<longrightarrow> nrows (g t') = nqubits t \<and> ncols (g t') = nqubits t) \<and>
         transpose_mat (g t') = g t'"
  proof (cases g0)
    case None
    with f(10) assms(1) show ?thesis by (simp add: transmons_inv_def Let_def)
  next
    case (Some c)
    with f(10) obtain g1 g2 where g: "times_ones2 c (nqubits t) = Inr g1"
      "np_binop (+) g1 (transpose_mat g1) = Inr g2" "g t' = mat_scale 0.5 g2" by auto
    note sym = symmetrized[OF g(1,2)]
    show ?thesis using sym(2) sym(3) by (simp add: g(3))
  qed
  with assms(1) show ?thesis
    unfolding transmons_inv_def Let_def f(1-5) by simp
qed

lemma instance_inv: "Transmons_instance t \<Longrightarrow> transmons_inv t"
  by (induction rule: Transmons_instance.induct) (auto intro: init_inv tune_inv)

lemma sum_sum_list_swap:
  "(\<Sum>k<n. (\<Sum>z\<leftarrow>zs. f z k) * y k) = (\<Sum>z\<leftarrow>zs. \<Sum>k<n. f z k * y k)"
  for f :: "'z \<Rightarrow> nat \<Rightarrow> real"
  by (induction zs) (simp_all add: distrib_right sum.distrib)

lemma matmul_assoc_entry:
  "(\<Sum>k<n. (c * (\<Sum>l<m. P l * Q l k)) * y k) = c * (\<Sum>l<m. P l * (\<Sum>k<n. Q l k * y k))"
  for c :: real
proof -
  have "(\<Sum>k<n. (c * (\<Sum>l<m. P l * Q l k)) * y k) = c * (\<Sum>k<n. \<Sum>l<m. P l * Q l k * y k)"
    by (simp add: sum_distrib_left sum_distrib_right mult.assoc)
  also have "(\<Sum>k<n. \<Sum>l<m. P l * Q l k * y k) = (\<Sum>l<m. \<Sum>k<n. P l * Q l k * y k)"
    by (rule sum.swap)
  also have "\<dots> = (\<Sum>l<m. P l * (\<Sum>k<n. Q l k * y k))"
    by (simp add: sum_distrib_left mult.assoc)
  finally show ?thesis .
qed

lemma den_py_sum_map:
  assumes "\<And>z. z \<in> set zs \<Longrightarrow> nrows (F z) = r \<and> ncols (F z) = c"
  shows "den (py_sum (map F zs)) i j = (\<Sum>z\<leftarrow>zs. entry (F z) i j)"
proof -
  have "den (py_sum (map F zs)) i j = (\<Sum>A\<leftarrow>map F zs. entry A i j)"
    by (rule den_py_sum[where r = r and c = c]) (use assms in auto)
  then show ?thesis by (simp add: comp_def)
qed

lemma py_sum_map_cases:
  assumes "\<And>z. z \<in> set zs \<Longrightarrow> nrows (F z) = r \<and> ncols (F z) = c"
  shows "py_sum (map F zs) = PyInt0 \<or> (\<exists>R. py_sum (map F zs) = M R \<and> nrows R = r \<and> ncols R = c)"
  by (rule py_sum_cases) (use assms in auto)

lemma g_indices_ok_inv: "transmons_inv t \<Longrightarrow> g_indices_ok t"
  unfolding transmons_inv_def g_indices_ok_def Let_def list_all_iff
  by (cases "nqubits t = 1") auto

lemma coupled_pairs_range:
  "(i, j) \<in> set (coupled_pairs t) \<Longrightarrow> i < nqubits t \<and> j < nqubits t"
  by (auto simp: coupled_pairs_def)

lemma zip_snd_mem: "z \<in> set (zip xs ys) \<Longrightarrow> snd z \<in> set ys"
  by (cases z) (auto dest: set_zip_rightD)

lemma neg_sum_list:
  "(\<Sum>z\<leftarrow>zs. \<Sum>k<n. - e z * h z k * y k) = - (\<Sum>z\<leftarrow>zs. e z * (\<Sum>k<n. h z k * y k))"
  for e :: "'z \<Rightarrow> real"
  by (induction zs) (simp_all add: sum_distrib_left mult.assoc sum_negf)


subsection \<open>The matrix-free application\<close>

text \<open>
  Claim C1. For every instance (constructed, and tuned any number of times) and every
  input \<open>x\<close>, \<open>apply(x)\<close> and \<open>hamiltonian() @ x\<close> have the same outcome: the same
  matrix when the number of rows of \<open>x\<close> is the dimension of the space, and the same
  \<^verbatim>\<open>ValueError\<close> otherwise (also for an instance without qubits, where both operate on
  the integer 0). The arithmetic is exact.
\<close>

theorem apply_eq_hamiltonian:
  assumes "Transmons_instance t"
  shows "Transmons_apply t x = hamiltonian_matmul t x"
proof -
  have inv: "transmons_inv t" using assms by (rule instance_inv)
  define n where "n = nqubits t"
  define fd where "fd = (2 * nmax t + 1) ^ n"
  from inv have lenN: "length (N t) = n" and lenH: "length (HJJ t) = n"
    and shN: "\<And>A. A \<in> set (N t) \<Longrightarrow> nrows A = fd \<and> ncols A = fd"
    and shH: "\<And>A. A \<in> set (HJJ t) \<Longrightarrow> nrows A = fd \<and> ncols A = fd"
    and Hc: "case Hcap t of PyInt0 \<Rightarrow> n = 0 | M Hc \<Rightarrow> 0 < n \<and> nrows Hc = fd \<and> ncols Hc = fd"
    unfolding transmons_inv_def Let_def n_def fd_def list_all_iff by blast+
  have gok: "g_indices_ok t" using inv by (rule g_indices_ok_inv)
  let ?zs = "zip (EJ t) (HJJ t)"
  let ?ps = "coupled_pairs t"
  let ?F1h = "\<lambda>(e, h). mat_scale (- e) h"
  let ?F2h = "\<lambda>(i, j). mat_scale (2 * entry (g t) i j) (matmul (N t ! i) (N t ! j))"
  let ?F1a = "\<lambda>(e, h). mat_scale e (matmul h x)"
  let ?F2a = "\<lambda>(i, j). mat_scale (2 * entry (g t) i j) (matmul (N t ! i) (matmul (N t ! j) x))"
  have ham: "hamiltonian t
      = Inr (py_add (py_add (Hcap t) (py_sum (map ?F1h ?zs))) (py_sum (map ?F2h ?ps)))"
    using gok by (simp add: hamiltonian_def Let_def)
  have app: "Transmons_apply t x
      = (case py_matmul (Hcap t) x of
           Inl e \<Rightarrow> Inl e
         | Inr Hpsi \<Rightarrow>
             Inr (arr_add (arr_sub Hpsi (py_sum (map ?F1a ?zs))) (py_sum (map ?F2a ?ps))))"
    unfolding Transmons_apply_def Let_def using gok by (simp split: sum.splits)
  have Nnth: "nrows (N t ! i) = fd \<and> ncols (N t ! i) = fd" if "i < n" for i
    using that shN[of "N t ! i"] lenN by simp
  have sh1h: "nrows (?F1h z) = fd \<and> ncols (?F1h z) = fd" if "z \<in> set ?zs" for z
    using shH[OF zip_snd_mem[OF that]] by (simp add: case_prod_unfold)
  have sh1a: "nrows (?F1a z) = fd \<and> ncols (?F1a z) = ncols x" if "z \<in> set ?zs" for z
    using shH[OF zip_snd_mem[OF that]] by (simp add: case_prod_unfold)
  have sh2h: "nrows (?F2h p) = fd \<and> ncols (?F2h p) = fd" if "p \<in> set ?ps" for p
    using that coupled_pairs_range[of "fst p" "snd p" t] Nnth
    by (auto simp: case_prod_unfold n_def)
  have sh2a: "nrows (?F2a p) = fd \<and> ncols (?F2a p) = ncols x" if "p \<in> set ?ps" for p
    using that coupled_pairs_range[of "fst p" "snd p" t] Nnth
    by (auto simp: case_prod_unfold n_def)
  show ?thesis
  proof (cases "Hcap t")
    case PyInt0
    with Hc have "n = 0" by simp
    then have "HJJ t = []" "?ps = []"
      using lenH by (simp_all add: coupled_pairs_def n_def)
    then have z: "py_sum (map ?F1h ?zs) = PyInt0" "py_sum (map ?F2h ?ps) = PyInt0"
      by simp_all
    show ?thesis
      unfolding hamiltonian_matmul_def ham app PyInt0 z
      by (simp add: py_matmul_def)
  next
    case (M Hc')
    with Hc have shc: "nrows Hc' = fd" "ncols Hc' = fd" by simp_all
    show ?thesis
    proof (cases "fd = nrows x")
      case False
      from py_sum_map_cases[of ?zs ?F1h fd fd, OF sh1h]
      have c1: "py_sum (map ?F1h ?zs) = PyInt0 \<or>
          (\<exists>B. py_sum (map ?F1h ?zs) = M B \<and> nrows B = nrows Hc' \<and> ncols B = ncols Hc')"
        by (simp add: shc)
      from py_add_M[OF c1] obtain R1 where R1: "py_add (M Hc') (py_sum (map ?F1h ?zs)) = M R1"
        "nrows R1 = fd" "ncols R1 = fd" by (auto simp: shc)
      from py_sum_map_cases[of ?ps ?F2h fd fd, OF sh2h]
      have c2: "py_sum (map ?F2h ?ps) = PyInt0 \<or>
          (\<exists>B. py_sum (map ?F2h ?ps) = M B \<and> nrows B = nrows R1 \<and> ncols B = ncols R1)"
        by (simp add: R1)
      from py_add_M[OF c2] obtain R2 where R2: "py_add (M R1) (py_sum (map ?F2h ?ps)) = M R2"
        "nrows R2 = fd" "ncols R2 = fd" by (auto simp: R1)
      show ?thesis
        unfolding hamiltonian_matmul_def ham app M R1(1) R2(1)
        using False by (simp add: py_matmul_def shc R2)
    next
      case True
      \<comment> \<open>the Hamiltonian\<close>
      from py_sum_map_cases[of ?zs ?F1h fd fd, OF sh1h]
      have c1: "py_sum (map ?F1h ?zs) = PyInt0 \<or>
          (\<exists>B. py_sum (map ?F1h ?zs) = M B \<and> nrows B = nrows Hc' \<and> ncols B = ncols Hc')"
        by (simp add: shc)
      from py_add_M[OF c1] obtain R1 where R1: "py_add (M Hc') (py_sum (map ?F1h ?zs)) = M R1"
        "nrows R1 = fd" "ncols R1 = fd"
        "\<And>i j. entry R1 i j = entry Hc' i j + den (py_sum (map ?F1h ?zs)) i j"
        by (auto simp: shc)
      from py_sum_map_cases[of ?ps ?F2h fd fd, OF sh2h]
      have c2: "py_sum (map ?F2h ?ps) = PyInt0 \<or>
          (\<exists>B. py_sum (map ?F2h ?ps) = M B \<and> nrows B = nrows R1 \<and> ncols B = ncols R1)"
        by (simp add: R1)
      from py_add_M[OF c2] obtain R2 where R2: "py_add (M R1) (py_sum (map ?F2h ?ps)) = M R2"
        "nrows R2 = fd" "ncols R2 = fd"
        "\<And>i j. entry R2 i j = entry R1 i j + den (py_sum (map ?F2h ?ps)) i j"
        by (auto simp: R1)
      have lhs: "hamiltonian_matmul t x = Inr (matmul R2 x)"
        unfolding hamiltonian_matmul_def ham M R1(1) R2(1)
        using True by (simp add: py_matmul_def R2)
      \<comment> \<open>the matrix-free application\<close>
      let ?Hx = "matmul Hc' x"
      from py_sum_map_cases[of ?zs ?F1a fd "ncols x", OF sh1a]
      have d1: "py_sum (map ?F1a ?zs) = PyInt0 \<or>
          (\<exists>B. py_sum (map ?F1a ?zs) = M B \<and> nrows B = nrows ?Hx \<and> ncols B = ncols ?Hx)"
        by (simp add: shc)
      define S1 where "S1 = arr_sub ?Hx (py_sum (map ?F1a ?zs))"
      from arr_sub_props[OF d1] have S1: "arr_sub ?Hx (py_sum (map ?F1a ?zs)) = S1"
        "nrows S1 = fd" "ncols S1 = ncols x" "normal S1"
        "\<And>i j. entry S1 i j = entry ?Hx i j - den (py_sum (map ?F1a ?zs)) i j"
        by (auto simp: shc S1_def)
      from py_sum_map_cases[of ?ps ?F2a fd "ncols x", OF sh2a]
      have d2: "py_sum (map ?F2a ?ps) = PyInt0 \<or>
          (\<exists>B. py_sum (map ?F2a ?ps) = M B \<and> nrows B = nrows S1 \<and> ncols B = ncols S1)"
        by (simp add: S1)
      define S2 where "S2 = arr_add S1 (py_sum (map ?F2a ?ps))"
      from arr_add_props[OF d2] have S2: "arr_add S1 (py_sum (map ?F2a ?ps)) = S2"
        "nrows S2 = fd" "ncols S2 = ncols x" "normal S2"
        "\<And>i j. entry S2 i j = entry S1 i j + den (py_sum (map ?F2a ?ps)) i j"
        by (auto simp: S1 S2_def)
      have rhs: "Transmons_apply t x = Inr S2"
        unfolding app M using True by (simp add: py_matmul_def shc S1(1) S2(1))
      \<comment> \<open>entry by entry\<close>
      have "S2 = matmul R2 x"
      proof (rule mat_eqI)
        show "normal S2" by (rule S2(4))
        show "normal (matmul R2 x)" by simp
        show "nrows S2 = nrows (matmul R2 x)" by (simp add: S2 R2)
        show "ncols S2 = ncols (matmul R2 x)" by (simp add: S2)
        fix i j
        have e1: "den (py_sum (map ?F1h ?zs)) i k = (\<Sum>z\<leftarrow>?zs. - fst z * entry (snd z) i k)" for k
          by (subst den_py_sum_map[of ?zs ?F1h fd fd, OF sh1h]) (simp_all add: case_prod_unfold)
        have e2: "den (py_sum (map ?F2h ?ps)) i k
            = (\<Sum>p\<leftarrow>?ps. 2 * entry (g t) (fst p) (snd p) *
                 (\<Sum>l<fd. entry (N t ! fst p) i l * entry (N t ! snd p) l k))" for k
        proof -
          have "den (py_sum (map ?F2h ?ps)) i k = (\<Sum>p\<leftarrow>?ps. entry (?F2h p) i k)"
            by (rule den_py_sum_map[of ?ps ?F2h fd fd, OF sh2h])
          also have "\<dots> = (\<Sum>p\<leftarrow>?ps. 2 * entry (g t) (fst p) (snd p) *
                 (\<Sum>l<fd. entry (N t ! fst p) i l * entry (N t ! snd p) l k))"
          proof (rule arg_cong[where f = sum_list], rule map_cong[OF refl])
            fix p assume p: "p \<in> set ?ps"
            then have "fst p < n" using coupled_pairs_range[of "fst p" "snd p" t] by (simp add: n_def)
            then show "entry (?F2h p) i k = 2 * entry (g t) (fst p) (snd p) *
                 (\<Sum>l<fd. entry (N t ! fst p) i l * entry (N t ! snd p) l k)"
              using Nnth[of "fst p"] by (simp add: case_prod_unfold entry_matmul)
          qed
          finally show ?thesis .
        qed
        have f1: "den (py_sum (map ?F1a ?zs)) i j
            = (\<Sum>z\<leftarrow>?zs. fst z * (\<Sum>k<fd. entry (snd z) i k * entry x k j))"
        proof -
          have "den (py_sum (map ?F1a ?zs)) i j = (\<Sum>z\<leftarrow>?zs. entry (?F1a z) i j)"
            by (rule den_py_sum_map[of ?zs ?F1a fd "ncols x", OF sh1a])
          also have "\<dots> = (\<Sum>z\<leftarrow>?zs. fst z * (\<Sum>k<fd. entry (snd z) i k * entry x k j))"
          proof (rule arg_cong[where f = sum_list], rule map_cong[OF refl])
            fix z assume "z \<in> set ?zs"
            from shH[OF zip_snd_mem[OF this]]
            show "entry (?F1a z) i j = fst z * (\<Sum>k<fd. entry (snd z) i k * entry x k j)"
              by (simp add: case_prod_unfold entry_matmul)
          qed
          finally show ?thesis .
        qed
        have f2: "den (py_sum (map ?F2a ?ps)) i j
            = (\<Sum>p\<leftarrow>?ps. 2 * entry (g t) (fst p) (snd p) *
                 (\<Sum>l<fd. entry (N t ! fst p) i l * (\<Sum>k<fd. entry (N t ! snd p) l k * entry x k j)))"
        proof -
          have "den (py_sum (map ?F2a ?ps)) i j = (\<Sum>p\<leftarrow>?ps. entry (?F2a p) i j)"
            by (rule den_py_sum_map[of ?ps ?F2a fd "ncols x", OF sh2a])
          also have "\<dots> = (\<Sum>p\<leftarrow>?ps. 2 * entry (g t) (fst p) (snd p) *
                 (\<Sum>l<fd. entry (N t ! fst p) i l * (\<Sum>k<fd. entry (N t ! snd p) l k * entry x k j)))"
          proof (rule arg_cong[where f = sum_list], rule map_cong[OF refl])
            fix p assume p: "p \<in> set ?ps"
            then have "fst p < n" "snd p < n"
              using coupled_pairs_range[of "fst p" "snd p" t] by (simp_all add: n_def)
            then show "entry (?F2a p) i j = 2 * entry (g t) (fst p) (snd p) *
                 (\<Sum>l<fd. entry (N t ! fst p) i l * (\<Sum>k<fd. entry (N t ! snd p) l k * entry x k j))"
              using Nnth[of "fst p"] Nnth[of "snd p"] by (simp add: case_prod_unfold entry_matmul)
          qed
          finally show ?thesis .
        qed
        have "entry (matmul R2 x) i j
            = (\<Sum>k<fd. (entry Hc' i k + (\<Sum>z\<leftarrow>?zs. - fst z * entry (snd z) i k)
                 + (\<Sum>p\<leftarrow>?ps. 2 * entry (g t) (fst p) (snd p) *
                      (\<Sum>l<fd. entry (N t ! fst p) i l * entry (N t ! snd p) l k))) * entry x k j)"
          by (simp only: entry_matmul R2 R1 e1 e2)
        also have "\<dots> = (\<Sum>k<fd. entry Hc' i k * entry x k j)
             + (\<Sum>k<fd. (\<Sum>z\<leftarrow>?zs. - fst z * entry (snd z) i k) * entry x k j)
             + (\<Sum>k<fd. (\<Sum>p\<leftarrow>?ps. 2 * entry (g t) (fst p) (snd p) *
                      (\<Sum>l<fd. entry (N t ! fst p) i l * entry (N t ! snd p) l k)) * entry x k j)"
          by (simp only: distrib_right sum.distrib)
        also have "(\<Sum>k<fd. (\<Sum>z\<leftarrow>?zs. - fst z * entry (snd z) i k) * entry x k j)
             = (\<Sum>z\<leftarrow>?zs. \<Sum>k<fd. - fst z * entry (snd z) i k * entry x k j)"
          by (rule sum_sum_list_swap)
        also have "\<dots> = - (\<Sum>z\<leftarrow>?zs. fst z * (\<Sum>k<fd. entry (snd z) i k * entry x k j))"
          by (rule neg_sum_list)
        also have "(\<Sum>k<fd. (\<Sum>p\<leftarrow>?ps. 2 * entry (g t) (fst p) (snd p) *
                      (\<Sum>l<fd. entry (N t ! fst p) i l * entry (N t ! snd p) l k)) * entry x k j)
             = (\<Sum>p\<leftarrow>?ps. \<Sum>k<fd. 2 * entry (g t) (fst p) (snd p) *
                      (\<Sum>l<fd. entry (N t ! fst p) i l * entry (N t ! snd p) l k) * entry x k j)"
          by (rule sum_sum_list_swap)
        also have "\<dots> = (\<Sum>p\<leftarrow>?ps. 2 * entry (g t) (fst p) (snd p) *
                 (\<Sum>l<fd. entry (N t ! fst p) i l * (\<Sum>k<fd. entry (N t ! snd p) l k * entry x k j)))"
          by (simp only: matmul_assoc_entry)
        finally have "entry (matmul R2 x) i j
            = (\<Sum>k<fd. entry Hc' i k * entry x k j)
              - (\<Sum>z\<leftarrow>?zs. fst z * (\<Sum>k<fd. entry (snd z) i k * entry x k j))
              + (\<Sum>p\<leftarrow>?ps. 2 * entry (g t) (fst p) (snd p) *
                 (\<Sum>l<fd. entry (N t ! fst p) i l * (\<Sum>k<fd. entry (N t ! snd p) l k * entry x k j)))"
          by simp
        also have "\<dots> = entry S2 i j"
          by (simp only: S2(5) S1(5) f1 f2 entry_matmul shc)
        finally show "entry S2 i j = entry (matmul R2 x) i j" by simp
      qed
      with lhs rhs show ?thesis by simp
    qed
  qed
qed

theorem apply_eq_hamiltonian_witness:
  "\<exists>t. Transmons_init 1 (Scalar 1) (Scalar 2) (GScalar 0) (Scalar 0) 1 = Inr t \<and>
     Transmons_instance t \<and>
     Transmons_apply t (Mat 3 1 [[1], [2], [3]]) = Inr (Mat 3 1 [[2], [- 4], [10]]) \<and>
     hamiltonian_matmul t (Mat 3 1 [[1], [2], [3]]) = Inr (Mat 3 1 [[2], [- 4], [10]])"
proof -
  let ?t = "\<lparr>nqubits = 1, Ec = [1], ng = [0], EJ = [2], shape = (3, 3), nmax = 1,
        N = [Mat 3 3 [[- 1, 0, 0], [0, 0, 0], [0, 0, 1]]],
        Hcap = M (Mat 3 3 [[4, 0, 0], [0, 0, 0], [0, 0, 4]]),
        HJJ = [Mat 3 3 [[0, 1 / 2, 0], [1 / 2, 0, 1 / 2], [0, 1 / 2, 0]]],
        g = Mat 1 1 [[0]]\<rparr>"
  have i: "Transmons_init 1 (Scalar 1) (Scalar 2) (GScalar 0) (Scalar 0) 1 = Inr ?t"
    by code_simp
  then have inst: "Transmons_instance ?t"
    by (rule Transmons_instance.constructed)
  have a: "Transmons_apply ?t (Mat 3 1 [[1], [2], [3]]) = Inr (Mat 3 1 [[2], [- 4], [10]])"
    by code_simp
  from apply_eq_hamiltonian[OF inst, of "Mat 3 1 [[1], [2], [3]]"] a
  have "hamiltonian_matmul ?t (Mat 3 1 [[1], [2], [3]]) = Inr (Mat 3 1 [[2], [- 4], [10]])"
    by simp
  with i inst a show ?thesis by blast
qed

subsection \<open>Lifting a local operator\<close>

text \<open>
  Claim C5. For a square local operator of dimension \<open>d\<close> and \<open>j < n\<close>, the lifted
  operator of the code is the product \<open>I(d^j) \<otimes> op \<otimes> I(d^(n-j-1))\<close> of the
  specification, in either bracketing; it is square of dimension \<open>d^n\<close>; and its entry
  at the row \<open>r\<close> and the column \<open>s\<close> is the entry of \<open>op\<close> at the digits of \<open>r\<close> and \<open>s\<close>
  that belong to subsystem \<open>j\<close> when all other digits of \<open>r\<close> and \<open>s\<close> agree, and zero
  otherwise.
\<close>

theorem qubit_operator_lifted:
  assumes "nrows op = d" "ncols op = d" "j < n"
  shows "qubit_operator op j n = lifted_spec op j n d \<and>
         qubit_operator op j n = kron (kron (eye (d ^ j)) op) (eye (d ^ (n - j - 1))) \<and>
         nrows (qubit_operator op j n) = d ^ n \<and> ncols (qubit_operator op j n) = d ^ n \<and>
         (\<forall>r < d ^ n. \<forall>s < d ^ n.
            entry (qubit_operator op j n) r s
              = (if r div (d * d ^ (n - j - 1)) = s div (d * d ^ (n - j - 1)) \<and>
                    r mod d ^ (n - j - 1) = s mod d ^ (n - j - 1)
                 then entry op (r div d ^ (n - j - 1) mod d) (s div d ^ (n - j - 1) mod d)
                 else 0))"
proof -
  let ?R = "d ^ (n - j - 1)"
  have q: "qubit_operator op j n = kron3 (eye (d ^ j)) op (eye ?R)"
    by (simp add: qubit_operator_def Let_def assms(1) kron_assoc_right)
  have sh: "nrows (qubit_operator op j n) = d ^ n \<and> ncols (qubit_operator op j n) = d ^ n"
    by (rule qubit_operator_shape[OF assms(3,1,2)])
  have ent: "entry (qubit_operator op j n) r s
              = (if r div (d * ?R) = s div (d * ?R) \<and> r mod ?R = s mod ?R
                 then entry op (r div ?R mod d) (s div ?R mod d) else 0)"
    if "r < d ^ n" "s < d ^ n" for r s
  proof -
    have dn: "d ^ n = d ^ j * (d * ?R)"
      using pow_split[OF assms(3), of d] by simp
    have pos: "0 < d * ?R"
    proof (rule Nat.gr0I)
      assume z: "d * ?R = 0"
      from that(1) have "r < d ^ j * (d * ?R)" unfolding dn .
      then have "r < 0" unfolding z by (simp only: mult_0_right)
      then show False by simp
    qed
    then have Rpos: "0 < ?R" by simp
    have r1: "r div (d * ?R) < d ^ j" "s div (d * ?R) < d ^ j"
      using that unfolding dn by (simp_all only: div_less_iff_less_mult[OF pos])
    have r3: "r mod ?R < ?R" "s mod ?R < ?R"
      using Rpos by simp_all
    have rng: "r < d ^ j * d * ?R" "s < d ^ j * d * ?R"
      using that unfolding dn by (simp_all only: mult.assoc)
    show ?thesis
      unfolding q kron3_def
      using rng r1 r3 by (simp add: assms(1,2) entry_eye)
  qed
  show ?thesis
    using q sh ent by (simp add: lifted_spec_def kron_assoc_left)
qed

theorem qubit_operator_lifted_witness:
  "nrows (Mat 2 2 [[1, 2], [3, 4]]) = 2 \<and> ncols (Mat 2 2 [[1, 2], [3, 4]]) = 2 \<and> (0::nat) < 2 \<and>
   qubit_operator (Mat 2 2 [[1, 2], [3, 4]]) 0 2
     = Mat 4 4 [[1, 0, 2, 0], [0, 1, 0, 2], [3, 0, 4, 0], [0, 3, 0, 4]] \<and>
   lifted_spec (Mat 2 2 [[1, 2], [3, 4]]) 0 2 2
     = Mat 4 4 [[1, 0, 2, 0], [0, 1, 0, 2], [3, 0, 4, 0], [0, 3, 0, 4]]"
proof -
  let ?op = "Mat 2 2 [[1, 2], [3, 4]]"
  have h: "nrows ?op = 2" "ncols ?op = 2" "(0::nat) < 2" by simp_all
  have e: "qubit_operator ?op 0 2 = Mat 4 4 [[1, 0, 2, 0], [0, 1, 0, 2], [3, 0, 4, 0], [0, 3, 0, 4]]"
    by code_simp
  from qubit_operator_lifted[OF h] have "qubit_operator ?op 0 2 = lifted_spec ?op 0 2 2"
    by blast
  with e h show ?thesis by simp
qed

subsection \<open>The coupling matrix and the parameters\<close>

lemma times_ones2_square:
  assumes "nrows A = n" "ncols A = n"
  shows "times_ones2 (GMatrix A) n = Inr (mk_mat n n (entry A))"
proof -
  have "mk_mat n n (\<lambda>i j. entry A (if n = 1 then 0 else i) (if n = 1 then 0 else j)
            * entry (np_ones n n) (if n = 1 then 0 else i) (if n = 1 then 0 else j))
      = mk_mat n n (entry A)"
    by (rule mk_mat_cong) (auto simp: np_ones_def)
  then show ?thesis
    by (simp add: times_ones2_def np_binop_def bc_dim_def assms)
qed

lemma symmetrize_square:
  "np_binop (+) (mk_mat n n f) (transpose_mat (mk_mat n n f))
     = Inr (mk_mat n n (\<lambda>i j. f i j + f j i))"
proof -
  have "mk_mat n n (\<lambda>i j. entry (mk_mat n n f) (if n = 1 then 0 else i) (if n = 1 then 0 else j)
            + entry (transpose_mat (mk_mat n n f)) (if n = 1 then 0 else i) (if n = 1 then 0 else j))
      = mk_mat n n (\<lambda>i j. f i j + f j i)"
    by (rule mk_mat_cong) auto
  then show ?thesis
    by (simp add: np_binop_def bc_dim_def)
qed

lemma mat_div_mk: "mat_div (mk_mat r c f) k = mk_mat r c (\<lambda>i j. f i j / k)"
  unfolding mat_div_def nrows_mk_mat ncols_mk_mat by (rule mk_mat_cong) simp

lemma mat_scale_mk: "mat_scale k (mk_mat r c f) = mk_mat r c (\<lambda>i j. k * f i j)"
  unfolding mat_scale_def nrows_mk_mat ncols_mk_mat by (rule mk_mat_cong) simp


text \<open>
  Claim C2. The coupling matrix stored by the constructor equals its transpose, whatever
  coupling was given; so does the one stored by \<open>tune\<close> when a coupling is given, on
  any object; hence the coupling matrix of every instance is symmetric. For a square
  matrix \<open>A\<close> with one row per qubit, the stored matrix is \<open>(A + A\<^sup>T) / 2\<close>.
\<close>

theorem coupling_symmetric:
  "(Transmons_init nq Ec0 EJ0 g0 ng0 nmax0 = Inr t \<longrightarrow> transpose_mat (g t) = g t) \<and>
   (tune t0 EJ1 (Some g1) = Inr t1 \<longrightarrow> transpose_mat (g t1) = g t1) \<and>
   (Transmons_instance t2 \<longrightarrow> transpose_mat (g t2) = g t2) \<and>
   (Transmons_init nq Ec0 EJ0 (GMatrix A) ng0 nmax0 = Inr t3 \<longrightarrow> nrows A = nq \<longrightarrow> ncols A = nq \<longrightarrow>
      g t3 = mk_mat nq nq (\<lambda>i j. (entry A i j + entry A j i) / 2)) \<and>
   (tune t0 EJ1 (Some (GMatrix A)) = Inr t4 \<longrightarrow> nrows A = nqubits t0 \<longrightarrow> ncols A = nqubits t0 \<longrightarrow>
      g t4 = mk_mat (nqubits t0) (nqubits t0) (\<lambda>i j. 0.5 * (entry A i j + entry A j i)))"
proof (intro conjI impI)
  assume "Transmons_init nq Ec0 EJ0 g0 ng0 nmax0 = Inr t"
  from init_inv[OF this] show "transpose_mat (g t) = g t"
    by (simp add: transmons_inv_def Let_def)
next
  assume "tune t0 EJ1 (Some g1) = Inr t1"
  from tune_fields(10)[OF this] obtain a b where "times_ones2 g1 (nqubits t0) = Inr a"
    "np_binop (+) a (transpose_mat a) = Inr b" "g t1 = mat_scale 0.5 b"
    by auto
  with symmetrized(2)[of g1 "nqubits t0" a b] show "transpose_mat (g t1) = g t1"
    by simp
next
  assume "Transmons_instance t2"
  from instance_inv[OF this] show "transpose_mat (g t2) = g t2"
    by (simp add: transmons_inv_def Let_def)
next
  assume i: "Transmons_init nq Ec0 EJ0 (GMatrix A) ng0 nmax0 = Inr t3"
    and A: "nrows A = nq" "ncols A = nq"
  from Transmons_init_fields(7)[OF i] show "g t3 = mk_mat nq nq (\<lambda>i j. (entry A i j + entry A j i) / 2)"
    by (auto simp: times_ones2_square[OF A] symmetrize_square mat_div_mk)
next
  assume i: "tune t0 EJ1 (Some (GMatrix A)) = Inr t4"
    and A: "nrows A = nqubits t0" "ncols A = nqubits t0"
  from tune_fields(10)[OF i]
  show "g t4 = mk_mat (nqubits t0) (nqubits t0) (\<lambda>i j. 0.5 * (entry A i j + entry A j i))"
    by (auto simp: times_ones2_square[OF A] symmetrize_square mat_scale_mk)
qed


theorem coupling_symmetric_witness:
  "\<exists>t t1. Transmons_init 2 (Scalar 1) (Scalar 1) (GMatrix (Mat 2 2 [[0, 1], [3, 0]])) (Scalar 0) 0 = Inr t \<and>
     g t = Mat 2 2 [[0, 2], [2, 0]] \<and> transpose_mat (g t) = g t \<and>
     tune t None (Some (GMatrix (Mat 2 2 [[1, 4], [0, 1]]))) = Inr t1 \<and>
     g t1 = Mat 2 2 [[1, 2], [2, 1]] \<and> transpose_mat (g t1) = g t1"
proof -
  let ?Z = "Mat 1 1 [[0]]"
  let ?t = "\<lparr>nqubits = 2, Ec = [1, 1], ng = [0, 0], EJ = [1, 1], shape = (1, 1), nmax = 0,
        N = [?Z, ?Z], Hcap = M ?Z, HJJ = [?Z, ?Z], g = Mat 2 2 [[0, 2], [2, 0]]\<rparr>"
  let ?t1 = "?t\<lparr>g := Mat 2 2 [[1, 2], [2, 1]]\<rparr>"
  have i: "Transmons_init 2 (Scalar 1) (Scalar 1) (GMatrix (Mat 2 2 [[0, 1], [3, 0]])) (Scalar 0) 0 = Inr ?t"
    by code_simp
  have u: "tune ?t None (Some (GMatrix (Mat 2 2 [[1, 4], [0, 1]]))) = Inr ?t1"
    by code_simp
  note c = coupling_symmetric[of 2 "Scalar 1" "Scalar 1" "GMatrix (Mat 2 2 [[0, 1], [3, 0]])"
      "Scalar 0" 0 ?t ?t None "GMatrix (Mat 2 2 [[1, 4], [0, 1]])" ?t1]
  from c i have s: "transpose_mat (g ?t) = g ?t" by blast
  from c u have s1: "transpose_mat (g ?t1) = g ?t1" by blast
  from i u s s1 show ?thesis
    by (intro exI[of _ ?t] exI[of _ ?t1]) simp
qed

lemma Transmons_init_scalars:
  "\<exists>t. Transmons_init nq (Scalar c1) (Scalar c2) (GScalar x) (Scalar c3) nmax0 = Inr t"
  by (simp add: Transmons_init_def times_ones_def times_ones2_def Let_def
      symmetrize_square)


text \<open>
  Claim C10. A scalar parameter is repeated \<open>nq\<close> times and a scalar coupling fills the
  \<open>nq\<close> by \<open>nq\<close> matrix before it is symmetrized; the constructor accepts scalars for
  all four parameters, and in the instance it returns each parameter that was given as a
  scalar is the array that holds this scalar for every qubit (the coupling matrix holds
  the scalar at every entry, also after the symmetrization).
\<close>

theorem scalar_broadcast:
  "times_ones (Scalar c) nq = Inr (replicate nq c) \<and>
   times_ones2 (GScalar x) nq = Inr (mk_mat nq nq (\<lambda>i j. x)) \<and>
   (\<exists>t. Transmons_init nq (Scalar c1) (Scalar c2) (GScalar x) (Scalar c3) nmax0 = Inr t) \<and>
   (Transmons_init nq Ec0 EJ0 g0 ng0 nmax0 = Inr t \<longrightarrow>
      (Ec0 = Scalar c1 \<longrightarrow> Ec t = replicate nq c1) \<and>
      (EJ0 = Scalar c2 \<longrightarrow> EJ t = replicate nq c2) \<and>
      (ng0 = Scalar c3 \<longrightarrow> ng t = replicate nq c3) \<and>
      (g0 = GScalar x \<longrightarrow> g t = mk_mat nq nq (\<lambda>i j. x)))"
proof (intro conjI impI)
  show "times_ones (Scalar c) nq = Inr (replicate nq c)"
    by (simp add: times_ones_def)
  show "times_ones2 (GScalar x) nq = Inr (mk_mat nq nq (\<lambda>i j. x))"
    by (simp add: times_ones2_def)
  show "\<exists>t. Transmons_init nq (Scalar c1) (Scalar c2) (GScalar x) (Scalar c3) nmax0 = Inr t"
    by (rule Transmons_init_scalars)
next
  assume i: "Transmons_init nq Ec0 EJ0 g0 ng0 nmax0 = Inr t"
  note f = Transmons_init_fields[OF i]
  show "Ec t = replicate nq c1" if "Ec0 = Scalar c1"
    using f(1) that by (simp add: times_ones_def)
  show "EJ t = replicate nq c2" if "EJ0 = Scalar c2"
    using f(3) that by (simp add: times_ones_def)
  show "ng t = replicate nq c3" if "ng0 = Scalar c3"
    using f(2) that by (simp add: times_ones_def)
  show "g t = mk_mat nq nq (\<lambda>i j. x)" if "g0 = GScalar x"
    using f(7) that by (auto simp: times_ones2_def symmetrize_square mat_div_mk)
qed

theorem scalar_broadcast_witness:
  "\<exists>t. Transmons_init 2 (Scalar 3) (Scalar 4) (GScalar 5) (Scalar 6) 0 = Inr t \<and>
     Ec t = [3, 3] \<and> EJ t = [4, 4] \<and> ng t = [6, 6] \<and> g t = Mat 2 2 [[5, 5], [5, 5]]"
proof -
  note b = scalar_broadcast[of _ 2 5 3 4 6 0 "Scalar 3" "Scalar 4" "GScalar 5" "Scalar 6"]
  from b obtain t where t: "Transmons_init 2 (Scalar 3) (Scalar 4) (GScalar 5) (Scalar 6) 0 = Inr t"
    by blast
  with b[of _ t] have "Ec t = replicate 2 3 \<and> EJ t = replicate 2 4 \<and> ng t = replicate 2 6 \<and>
      g t = mk_mat 2 2 (\<lambda>i j. 5)"
    by blast
  moreover have "mk_mat 2 2 (\<lambda>i j. 5) = Mat 2 2 [[5, 5], [5, 5]]"
    by code_simp
  ultimately show ?thesis using t
    by (intro exI[of _ t]) (simp add: numeral_2_eq_2)
qed

subsection \<open>Tuned copies in the store\<close>

lemma tune_store_cases:
  assumes "tune_store h self EJ0 g0 = Inr (out, h')"
  obtains f where "h ! self = Instance f" "out = length h"
    and "case EJ0 of None \<Rightarrow> True | Some p \<Rightarrow> \<exists>v. times_ones p (o_nqubits f) = Inr v"
    and "case g0 of None \<Rightarrow> True | Some c \<Rightarrow> \<exists>g1 g2. times_ones2 c (o_nqubits f) = Inr g1 \<and>
            np_binop (+) g1 (transpose_mat g1) = Inr g2"
    and "h' = h @ [Instance (f\<lparr>o_EJ := (case EJ0 of None \<Rightarrow> o_EJ f | Some p \<Rightarrow> length h + 1),
                              o_g := (case g0 of None \<Rightarrow> o_g f
                                      | Some c \<Rightarrow> (case EJ0 of None \<Rightarrow> length h + 1 | Some p \<Rightarrow> length h + 2))\<rparr>)]
              @ (case EJ0 of None \<Rightarrow> [] | Some p \<Rightarrow> [Floats (projr (times_ones p (o_nqubits f)))])
              @ (case g0 of None \<Rightarrow> []
                 | Some c \<Rightarrow> [Matrix (mat_scale 0.5
                     (projr (np_binop (+) (projr (times_ones2 c (o_nqubits f)))
                        (transpose_mat (projr (times_ones2 c (o_nqubits f)))))))])"
  using assms unfolding tune_store_def
  by (cases "h ! self"; cases EJ0; cases g0)
     (auto simp: new_obj_def set_attr_def Let_def nth_append list_update_append
       split: sum.splits)

lemma tune_store_frame:
  assumes "tune_store h r EJ0 g0 = Inr (out, h')"
  shows "out = length h" "length h < length h'" "\<forall>a < length h. h' ! a = h ! a"
  using assms by (auto elim!: tune_store_cases simp: nth_append)

lemma read_frame:
  assumes "\<forall>a < length h. h' ! a = h ! a" "a < length h"
  shows "floats_at h' a = floats_at h a" "matrix_at h' a = matrix_at h a"
    "summed_at h' a = summed_at h a" "matrices_at h' a = matrices_at h a"
  using assms by (simp_all add: floats_at_def matrix_at_def summed_at_def matrices_at_def)

lemma view_frame:
  assumes "\<forall>a < length h. h' ! a = h ! a" "is_object h r"
  shows "view h' r = view h r"
proof -
  from assms(2) obtain f where f: "h ! r = Instance f" and r: "r < length h"
    and refs: "o_Ec f < length h" "o_ng f < length h" "o_EJ f < length h"
    "o_N f < length h" "o_Hcap f < length h" "o_HJJ f < length h" "o_g f < length h"
    unfolding is_object_def by (cases "h ! r") simp_all
  from assms(1) r f have f': "h' ! r = Instance f" by simp
  show ?thesis
    unfolding view_def f f'
    by (simp add: read_frame[OF assms(1)] refs)
qed

lemma is_object_frame:
  assumes "\<forall>a < length h. h' ! a = h ! a" "length h \<le> length h'" "is_object h r"
  shows "is_object h' r"
  using assms unfolding is_object_def
  by (auto split: pyobj.splits)

lemma tune_store_view:
  assumes "is_object h self" "tune_store h self EJ0 g0 = Inr (out, h')"
  shows "\<exists>t t'. view h self = Some t \<and> view h' out = Some t' \<and> tune t EJ0 g0 = Inr t'"
    and "is_object h' out"
proof -
  from assms(2) obtain f where f: "h ! self = Instance f" "out = length h"
    and e: "case EJ0 of None \<Rightarrow> True | Some p \<Rightarrow> \<exists>v. times_ones p (o_nqubits f) = Inr v"
    and c: "case g0 of None \<Rightarrow> True | Some c \<Rightarrow> \<exists>g1 g2. times_ones2 c (o_nqubits f) = Inr g1 \<and>
            np_binop (+) g1 (transpose_mat g1) = Inr g2"
    and h': "h' = h @ [Instance (f\<lparr>o_EJ := (case EJ0 of None \<Rightarrow> o_EJ f | Some p \<Rightarrow> length h + 1),
                              o_g := (case g0 of None \<Rightarrow> o_g f
                                      | Some c \<Rightarrow> (case EJ0 of None \<Rightarrow> length h + 1 | Some p \<Rightarrow> length h + 2))\<rparr>)]
              @ (case EJ0 of None \<Rightarrow> [] | Some p \<Rightarrow> [Floats (projr (times_ones p (o_nqubits f)))])
              @ (case g0 of None \<Rightarrow> []
                 | Some c \<Rightarrow> [Matrix (mat_scale 0.5
                     (projr (np_binop (+) (projr (times_ones2 c (o_nqubits f)))
                        (transpose_mat (projr (times_ones2 c (o_nqubits f)))))))])"
    by (rule tune_store_cases)
  from assms(1) f(1) have refs: "o_Ec f < length h" "o_ng f < length h" "o_EJ f < length h"
    "o_N f < length h" "o_Hcap f < length h" "o_HJJ f < length h" "o_g f < length h"
    by (simp_all add: is_object_def)
  show "is_object h' out"
    unfolding is_object_def h' f(2) using refs
    by (cases EJ0; cases g0) (simp_all add: nth_append)
  show "\<exists>t t'. view h self = Some t \<and> view h' out = Some t' \<and> tune t EJ0 g0 = Inr t'"
    using refs e c unfolding h' f(2)
    by (cases EJ0; cases g0)
       (auto simp: view_def f(1) nth_append tune_def Let_def floats_at_def matrix_at_def
          summed_at_def matrices_at_def)
qed

lemma new_instance_view:
  assumes "new_instance h t = (r, h')"
  shows "is_object h' r" "view h' r = Some t" "\<forall>a < length h. h' ! a = h ! a"
  using assms
  by (auto simp: new_instance_def Let_def is_object_def view_def nth_append
      floats_at_def matrix_at_def summed_at_def matrices_at_def)

lemma use_store_frame:
  assumes "use_store h1 r u = Inr h2" "n \<le> r" "r < length h1"
    and "case write_target h1 r u of Some a \<Rightarrow> n \<le> a | None \<Rightarrow> True"
  shows "length h1 \<le> length h2" "\<forall>a < n. h2 ! a = h1 ! a"
proof -
  from assms(1) obtain f where f: "h1 ! r = Instance f"
    unfolding use_store_def by (cases "h1 ! r") simp_all
  have "length h1 \<le> length h2 \<and> (\<forall>a < n. h2 ! a = h1 ! a)"
  proof (cases u)
    case (Tune EJ0 g0)
    with assms(1) f obtain out where "tune_store h1 r EJ0 g0 = Inr (out, h2)"
      unfolding use_store_def by (auto split: sum.splits)
    from tune_store_frame[OF this] assms(2) assms(3) show ?thesis by auto
  next
    case (Assign_vec va v)
    with assms(1) assms(3) f
    have "h2 = (h1 @ [Floats v])[r := Instance (set_vec_ref va (length h1) f)]"
      unfolding use_store_def
      by (auto simp: new_obj_def set_attr_def nth_append)
    with assms(2) assms(3) show ?thesis by (auto simp: nth_append nth_list_update)
  next
    case (Assign_g A)
    with assms(1) assms(3) f
    have "h2 = (h1 @ [Matrix A])[r := Instance (f\<lparr>o_g := length h1\<rparr>)]"
      unfolding use_store_def
      by (auto simp: new_obj_def set_attr_def nth_append)
    with assms(2) assms(3) show ?thesis by (auto simp: nth_append nth_list_update)
  next
    case (Write_vec va i v)
    with assms(1) f obtain xs where "h2 = h1[vec_ref va f := Floats xs]"
      unfolding use_store_def by (auto split: pyobj.splits if_splits)
    moreover from assms(4) f Write_vec have "n \<le> vec_ref va f"
      by (simp add: write_target_def)
    ultimately show ?thesis by auto
  next
    case (Write_g i j v)
    with assms(1) f obtain A where "h2 = h1[o_g f := Matrix A]"
      unfolding use_store_def by (auto split: pyobj.splits if_splits)
    moreover from assms(4) f Write_g have "n \<le> o_g f"
      by (simp add: write_target_def)
    ultimately show ?thesis by auto
  qed
  then show "length h1 \<le> length h2" "\<forall>a < n. h2 ! a = h1 ! a" by blast+
qed

lemma uses_store_frame:
  assumes "uses_store h1 r us = Inr h2" "writes_from n h1 r us" "n \<le> r" "r < length h1"
  shows "\<forall>a < n. h2 ! a = h1 ! a"
  using assms
proof (induction us arbitrary: h1)
  case Nil
  then show ?case by simp
next
  case (Cons u us)
  from Cons.prems(1) obtain h' where u: "use_store h1 r u = Inr h'" and us: "uses_store h' r us = Inr h2"
    by (auto split: sum.splits)
  from Cons.prems(2) u have w: "case write_target h1 r u of Some a \<Rightarrow> n \<le> a | None \<Rightarrow> True"
    and ws: "writes_from n h' r us"
    by simp_all
  note fr = use_store_frame[OF u Cons.prems(3) Cons.prems(4) w]
  from fr(1) Cons.prems(4) have "r < length h'" by simp
  from Cons.IH[OF us ws Cons.prems(3) this] fr(2) show ?case by simp
qed

lemma writes_from_no_write:
  "\<forall>u \<in> set us. \<not> in_place u \<Longrightarrow> writes_from n h r us"
proof (induction us arbitrary: h)
  case Nil
  show ?case by simp
next
  case (Cons u us)
  from Cons.prems have "\<not> in_place u" by simp
  then have "write_target h r u = None"
    by (cases u) (simp_all add: write_target_def split: pyobj.splits)
  moreover from Cons.prems have "writes_from n h' r us" for h'
    by (intro Cons.IH) simp
  ultimately show ?case by (simp split: sum.splits)
qed

lemma tune_store_shares:
  assumes "tune_store h self EJ0 g0 = Inr (out, h')"
  shows "\<exists>f f'. h ! self = Instance f \<and> h' ! out = Instance f' \<and>
           o_Ec f' = o_Ec f \<and> o_ng f' = o_ng f \<and> o_N f' = o_N f \<and>
           o_Hcap f' = o_Hcap f \<and> o_HJJ f' = o_HJJ f \<and>
           (EJ0 = None \<longrightarrow> o_EJ f' = o_EJ f) \<and> (g0 = None \<longrightarrow> o_g f' = o_g f) \<and>
           (EJ0 \<noteq> None \<longrightarrow> length h \<le> o_EJ f') \<and> (g0 \<noteq> None \<longrightarrow> length h \<le> o_g f')"
  using assms
  by (elim tune_store_cases) (cases EJ0; cases g0; simp add: nth_append)

lemma write_vec_seen:
  assumes ob: "is_object h self" and fr: "\<forall>a < length h. h' ! a = h ! a" "length h \<le> length h'"
    and f: "h ! self = Instance f" and f': "h' ! out = Instance f'"
    and sh: "vec_ref va f' = vec_ref va f"
    and w: "use_store h' out (Write_vec va i v) = Inr h2"
  shows "map_option (vec_of va) (view h2 self)
       = map_option (\<lambda>t. (vec_of va t)[i := v]) (view h self)"
proof -
  from ob f have refs: "self < length h" "o_Ec f < length h" "o_ng f < length h" "o_EJ f < length h"
    "o_N f < length h" "o_Hcap f < length h" "o_HJJ f < length h" "o_g f < length h"
    by (simp_all add: is_object_def)
  then have a: "vec_ref va f < length h" by (cases va) simp_all
  from w f' sh obtain xs where xs: "h' ! vec_ref va f = Floats xs"
    and h2: "h2 = h'[vec_ref va f := Floats (xs[i := v])]"
    unfolding use_store_def by (auto split: pyobj.splits if_splits)
  from fr(1) a xs have hx: "h ! vec_ref va f = Floats xs" by simp
  with f have ne: "vec_ref va f \<noteq> self" by auto
  from fr(1) refs(1) f have "h' ! self = Instance f" by simp
  with ne have s2: "h2 ! self = Instance f" unfolding h2 by simp
  have new: "floats_at h2 (vec_ref va f) = xs[i := v]"
    unfolding h2 floats_at_def using a fr(2) by simp
  have old: "floats_at h (vec_ref va f) = xs"
    unfolding floats_at_def hx by simp
  show ?thesis
    unfolding view_def f s2 using new old by (cases va) simp_all
qed

lemma write_g_seen:
  assumes ob: "is_object h self" and fr: "\<forall>a < length h. h' ! a = h ! a" "length h \<le> length h'"
    and f: "h ! self = Instance f" and f': "h' ! out = Instance f'"
    and sh: "o_g f' = o_g f"
    and w: "use_store h' out (Write_g i j v) = Inr h2"
  shows "map_option g (view h2 self) = map_option (\<lambda>t. setitem (g t) i j v) (view h self)"
proof -
  from ob f have refs: "self < length h" "o_g f < length h"
    by (simp_all add: is_object_def)
  from w f' sh obtain A where A: "h' ! o_g f = Matrix A"
    and h2: "h2 = h'[o_g f := Matrix (setitem A i j v)]"
    unfolding use_store_def by (auto split: pyobj.splits if_splits)
  from fr(1) refs(2) A have hA: "h ! o_g f = Matrix A" by simp
  with f have ne: "o_g f \<noteq> self" by auto
  from fr(1) refs(1) f have "h' ! self = Instance f" by simp
  with ne have s2: "h2 ! self = Instance f" unfolding h2 by simp
  have new: "matrix_at h2 (o_g f) = setitem A i j v"
    unfolding h2 matrix_at_def using refs(2) fr(2) by simp
  have old: "matrix_at h (o_g f) = A"
    unfolding matrix_at_def hA by simp
  show ?thesis
    unfolding view_def f s2 using new old by simp
qed

text \<open>
  Claim C9, as amended. Let \<open>self\<close> be a Transmons object of the store. When \<open>tune\<close>
  returns, its result \<open>out\<close> is a new object; every object that was in the store before
  the call is unchanged, so \<open>self\<close> has the value it had, array by array; the value of
  \<open>out\<close> is the value of \<open>self\<close> with the given parameters replaced (it is what \<open>tune\<close>
  computes on values), every parameter that was not given being inherited. The copy is
  shallow: it refers to the arrays of \<open>self\<close> for every parameter that the call did not
  replace, and to a new array for each one it did. A later \<open>tune\<close> of the copy changes
  no object that existed, neither \<open>self\<close> nor the copy; no sequence of later calls of
  \<open>tune\<close> and assignments of attributes of the copy changes \<open>self\<close>, and neither do
  writes in place as long as they go to arrays made after the call. A write in place
  through the copy into an array that it shares with \<open>self\<close> is a write into the array
  of \<open>self\<close>: \<open>self\<close> then holds the written value too.
\<close>

theorem tune_frame:
  assumes "is_object h self" "tune_store h self EJ0 g0 = Inr (out, h')"
  shows "out = length h \<and> length h < length h' \<and>
         (\<forall>a < length h. h' ! a = h ! a) \<and>
         view h' self = view h self \<and>
         is_object h' out \<and>
         (\<exists>t t'. view h self = Some t \<and> view h' out = Some t' \<and> tune t EJ0 g0 = Inr t' \<and>
            nqubits t' = nqubits t \<and> Ec t' = Ec t \<and> ng t' = ng t \<and> shape t' = shape t \<and>
            nmax t' = nmax t \<and> N t' = N t \<and> Hcap t' = Hcap t \<and> HJJ t' = HJJ t \<and>
            (EJ0 = None \<longrightarrow> EJ t' = EJ t) \<and> (g0 = None \<longrightarrow> g t' = g t)) \<and>
         (\<forall>EJ1 g1 out2 h2. tune_store h' out EJ1 g1 = Inr (out2, h2) \<longrightarrow>
            (\<forall>a < length h. h2 ! a = h ! a) \<and> view h2 self = view h self \<and>
            view h2 out = view h' out) \<and>
         (\<exists>f f'. h ! self = Instance f \<and> h' ! out = Instance f' \<and>
            o_Ec f' = o_Ec f \<and> o_ng f' = o_ng f \<and> o_N f' = o_N f \<and>
            o_Hcap f' = o_Hcap f \<and> o_HJJ f' = o_HJJ f \<and>
            (EJ0 = None \<longrightarrow> o_EJ f' = o_EJ f) \<and> (g0 = None \<longrightarrow> o_g f' = o_g f) \<and>
            (EJ0 \<noteq> None \<longrightarrow> length h \<le> o_EJ f') \<and> (g0 \<noteq> None \<longrightarrow> length h \<le> o_g f')) \<and>
         (\<forall>us h2. uses_store h' out us = Inr h2 \<longrightarrow>
            (\<forall>u \<in> set us. \<not> in_place u) \<or> writes_from (length h) h' out us \<longrightarrow>
            (\<forall>a < length h. h2 ! a = h ! a) \<and> view h2 self = view h self) \<and>
         (\<forall>va i v h2. use_store h' out (Write_vec va i v) = Inr h2 \<longrightarrow>
            (va = Attr_EJ \<longrightarrow> EJ0 = None) \<longrightarrow>
            map_option (vec_of va) (view h2 self)
              = map_option (\<lambda>t. (vec_of va t)[i := v]) (view h self)) \<and>
         (\<forall>i j v h2. use_store h' out (Write_g i j v) = Inr h2 \<longrightarrow> g0 = None \<longrightarrow>
            map_option g (view h2 self) = map_option (\<lambda>t. setitem (g t) i j v) (view h self))"
proof -
  note fr = tune_store_frame[OF assms(2)]
  have v: "view h' self = view h self"
    by (rule view_frame[OF fr(3) assms(1)])
  note tv = tune_store_view[OF assms]
  from tv(1) obtain t t' where t: "view h self = Some t" "view h' out = Some t'"
    "tune t EJ0 g0 = Inr t'" by blast
  note tf = tune_fields[OF t(3)]
  have inherited: "(EJ0 = None \<longrightarrow> EJ t' = EJ t) \<and> (g0 = None \<longrightarrow> g t' = g t)"
    using tf(9) tf(10) by auto
  have later: "(\<forall>a < length h. h2 ! a = h ! a) \<and> view h2 self = view h self \<and>
            view h2 out = view h' out"
    if "tune_store h' out EJ1 g1 = Inr (out2, h2)" for EJ1 g1 out2 h2
  proof -
    note fr2 = tune_store_frame[OF that]
    have a: "\<forall>a < length h. h2 ! a = h ! a"
      using fr(2) fr(3) fr2(3) by auto
    have "view h2 self = view h self"
      by (rule view_frame[OF a assms(1)])
    moreover have "view h2 out = view h' out"
      by (rule view_frame[OF fr2(3) tv(2)])
    ultimately show ?thesis using a by blast
  qed
  have inh: "\<exists>t t'. view h self = Some t \<and> view h' out = Some t' \<and> tune t EJ0 g0 = Inr t' \<and>
            nqubits t' = nqubits t \<and> Ec t' = Ec t \<and> ng t' = ng t \<and> shape t' = shape t \<and>
            nmax t' = nmax t \<and> N t' = N t \<and> Hcap t' = Hcap t \<and> HJJ t' = HJJ t \<and>
            (EJ0 = None \<longrightarrow> EJ t' = EJ t) \<and> (g0 = None \<longrightarrow> g t' = g t)"
    using t tf(1-8) inherited by blast
  note sh = tune_store_shares[OF assms(2)]
  from sh obtain f f' where f: "h ! self = Instance f" and f': "h' ! out = Instance f'"
    and shared: "o_Ec f' = o_Ec f" "o_ng f' = o_ng f"
      "EJ0 = None \<longrightarrow> o_EJ f' = o_EJ f" "g0 = None \<longrightarrow> o_g f' = o_g f"
    by blast
  have le: "length h \<le> length h'" using fr(2) by simp
  have uses: "(\<forall>a < length h. h2 ! a = h ! a) \<and> view h2 self = view h self"
    if u: "uses_store h' out us = Inr h2"
      and w: "(\<forall>u \<in> set us. \<not> in_place u) \<or> writes_from (length h) h' out us" for us h2
  proof -
    from w have "writes_from (length h) h' out us"
      using writes_from_no_write by blast
    from uses_store_frame[OF u this] fr(1) fr(2) have "\<forall>a < length h. h2 ! a = h' ! a"
      by simp
    with fr(3) have a: "\<forall>a < length h. h2 ! a = h ! a" by simp
    from view_frame[OF a assms(1)] a show ?thesis by blast
  qed
  have wv: "map_option (vec_of va) (view h2 self)
              = map_option (\<lambda>t. (vec_of va t)[i := v]) (view h self)"
    if w: "use_store h' out (Write_vec va i v) = Inr h2" and e: "va = Attr_EJ \<longrightarrow> EJ0 = None"
    for va i v h2
  proof -
    from shared e have "vec_ref va f' = vec_ref va f" by (cases va) simp_all
    from write_vec_seen[OF assms(1) fr(3) le f f' this w] show ?thesis .
  qed
  have wg: "map_option g (view h2 self) = map_option (\<lambda>t. setitem (g t) i j v) (view h self)"
    if w: "use_store h' out (Write_g i j v) = Inr h2" and e: "g0 = None" for i j v h2
  proof -
    from shared(4) e have "o_g f' = o_g f" by simp
    from write_g_seen[OF assms(1) fr(3) le f f' this w] show ?thesis .
  qed
  from later have l: "\<forall>EJ1 g1 out2 h2. tune_store h' out EJ1 g1 = Inr (out2, h2) \<longrightarrow>
            (\<forall>a < length h. h2 ! a = h ! a) \<and> view h2 self = view h self \<and>
            view h2 out = view h' out"
    by blast
  from uses have u: "\<forall>us h2. uses_store h' out us = Inr h2 \<longrightarrow>
            (\<forall>u \<in> set us. \<not> in_place u) \<or> writes_from (length h) h' out us \<longrightarrow>
            (\<forall>a < length h. h2 ! a = h ! a) \<and> view h2 self = view h self"
    by blast
  from wv have w1: "\<forall>va i v h2. use_store h' out (Write_vec va i v) = Inr h2 \<longrightarrow>
            (va = Attr_EJ \<longrightarrow> EJ0 = None) \<longrightarrow>
            map_option (vec_of va) (view h2 self)
              = map_option (\<lambda>t. (vec_of va t)[i := v]) (view h self)"
    by blast
  from wg have w2: "\<forall>i j v h2. use_store h' out (Write_g i j v) = Inr h2 \<longrightarrow> g0 = None \<longrightarrow>
            map_option g (view h2 self) = map_option (\<lambda>t. setitem (g t) i j v) (view h self)"
    by blast
  from fr v tv(2) inh l sh u w1 w2 show ?thesis
    by - (intro conjI; assumption)
qed

theorem tune_frame_witness:
  "\<exists>h h'. is_object h 7 \<and>
     tune_store h 7 (Some (Scalar 7)) None = Inr (8, h') \<and>
     map_option EJ (view h 7) = Some [1, 1] \<and>
     map_option EJ (view h' 7) = Some [1, 1] \<and>
     map_option EJ (view h' 8) = Some [7, 7] \<and>
     map_option g (view h' 8) = map_option g (view h 7) \<and>
     view h' 7 = view h 7"
proof -
  let ?Z = "Mat 1 1 [[0]]"
  let ?ob = "\<lparr>o_nqubits = 2, o_Ec = 0, o_ng = 1, o_EJ = 2, o_shape = (1, 1), o_nmax = 0,
              o_N = 3, o_Hcap = 4, o_HJJ = 5, o_g = 6\<rparr>"
  let ?h = "[Floats [1, 1], Floats [0, 0], Floats [1, 1], Matrices [?Z, ?Z], Summed (M ?Z),
             Matrices [?Z, ?Z], Matrix (Mat 2 2 [[0, 2], [2, 0]]), Instance ?ob]"
  let ?h' = "?h @ [Instance (?ob\<lparr>o_EJ := 9\<rparr>), Floats [7, 7]]"
  have ob: "is_object ?h 7"
    by (simp add: is_object_def)
  have tu: "tune_store ?h 7 (Some (Scalar 7)) None = Inr (8, ?h')"
    by (simp add: tune_store_def times_ones_def new_obj_def set_attr_def numeral_2_eq_2)
  have v: "map_option EJ (view ?h 7) = Some [1, 1]"
    by (simp add: view_def floats_at_def)
  have v8: "map_option EJ (view ?h' 8) = Some [7, 7]"
    by (simp add: view_def floats_at_def)
  note fr = tune_frame[OF ob tu]
  from fr have same: "view ?h' 7 = view ?h 7"
    by (elim conjE)
  from fr obtain t t' where "view ?h 7 = Some t" "view ?h' 8 = Some t'" "g t' = g t"
    by (elim conjE exE) (simp only: simp_thms)
  then have gg: "map_option g (view ?h' 8) = map_option g (view ?h 7)"
    by simp
  from ob tu v v8 gg same show ?thesis
    by (intro exI[of _ ?h] exI[of _ ?h']) (simp only: simp_thms)
qed

text \<open>
  The claim as it was stated fails for a write in place. \<^verbatim>\<open>t.tune(EJ=7)\<close> returns a
  copy that shares the coupling matrix with \<open>t\<close>; after \<^verbatim>\<open>copy.g[0, 1] = 9\<close> the
  coupling matrix of \<open>t\<close> holds 9 at that place, where it held 2.
\<close>

theorem shared_array_written:
  "case tune_store (snd two_qubits) (fst two_qubits) (Some (Scalar 7)) None of
     Inl e \<Rightarrow> False
   | Inr (out, h1) \<Rightarrow>
       (case use_store h1 out (Write_g 0 1 9) of
          Inl e \<Rightarrow> False
        | Inr h2 \<Rightarrow>
            out \<noteq> fst two_qubits \<and>
            map_option g (view h1 (fst two_qubits)) = Some (Mat 2 2 [[2, 2], [2, 2]]) \<and>
            map_option g (view h2 (fst two_qubits)) = Some (Mat 2 2 [[2, 9], [2, 2]]))"
  by code_simp

end
